theory Spec2Isabelle
  imports Main "HOL-Library.Sublist" "HOL-Library.AList" "HOL-Library.List_Lexorder"
    "HOL-Library.Char_ord" "HOL-Library.Multiset"
begin

section \<open>Paths (the POSIX flavour of Node's \<open>path\<close> module)\<close>

text \<open>
  JavaScript strings are modelled as \<^typ>\<open>string\<close>; a character stands for one code unit
  below 256. The functions of this section model the library functions the repository
  calls (\<open>path.resolve\<close>, \<open>path.join\<close>, \<open>path.dirname\<close>, \<open>path.basename\<close>,
  \<open>path.extname\<close>) on a POSIX host, where \<open>path.sep\<close> is the slash. The working directory
  of the process, \<open>process.cwd()\<close>, is the parameter \<open>cwd\<close>.
\<close>

definition sep :: string where
  "sep = ''/''"

definition isAbsolute :: "string \<Rightarrow> bool" where
  "isAbsolute p = (case p of [] \<Rightarrow> False | c # _ \<Rightarrow> c = CHR ''/'')"

text \<open>\<open>s.split("/")\<close>: the pieces between the slashes, at least one piece.\<close>

fun split_sep :: "string \<Rightarrow> string list" where
  "split_sep [] = [[]]"
| "split_sep (c # cs) =
     (if c = CHR ''/'' then [] # split_sep cs
      else (c # hd (split_sep cs)) # tl (split_sep cs))"

fun join_sep :: "string list \<Rightarrow> string" where
  "join_sep [] = []"
| "join_sep [s] = s"
| "join_sep (s # t # ss) = s @ ''/'' @ join_sep (t # ss)"

text \<open>
  One step of \<open>normalizeString\<close>: \<open>res\<close> is the stack of segments kept so far, the last
  segment first. Empty segments and \<open>.\<close> are dropped, \<open>..\<close> removes the last segment kept
  unless there is none or it is \<open>..\<close> itself, in which case \<open>..\<close> is kept only when
  \<open>allowAboveRoot\<close> holds.
\<close>

definition normalize_step :: "bool \<Rightarrow> string list \<Rightarrow> string \<Rightarrow> string list" where
  "normalize_step allowAboveRoot res seg =
     (if seg = [] \<or> seg = ''.'' then res
      else if seg = ''..'' then
        (case res of
           [] \<Rightarrow> (if allowAboveRoot then [''..''] else [])
         | r # rs \<Rightarrow>
             (if r = ''..'' then (if allowAboveRoot then ''..'' # res else res) else rs))
      else seg # res)"

definition normalize_segs :: "bool \<Rightarrow> string list \<Rightarrow> string list" where
  "normalize_segs allowAboveRoot segs = rev (foldl (normalize_step allowAboveRoot) [] segs)"

definition normalizeString :: "string \<Rightarrow> bool \<Rightarrow> string" where
  "normalizeString p allowAboveRoot = join_sep (normalize_segs allowAboveRoot (split_sep p))"

text \<open>
  \<open>path.resolve(p)\<close> with one argument: an empty \<open>p\<close> is skipped, a relative one is put
  after the working directory, and the result is normalised.
\<close>

definition resolve :: "string \<Rightarrow> string \<Rightarrow> string" where
  "resolve cwd p =
     (let resolvedPath =
            (if p = [] then cwd @ ''/''
             else if isAbsolute p then p @ ''/''
             else cwd @ ''/'' @ p @ ''/'');
          resolvedAbsolute = isAbsolute resolvedPath;
          norm = normalizeString resolvedPath (\<not> resolvedAbsolute)
      in if resolvedAbsolute then ''/'' @ norm
         else if norm \<noteq> [] then norm else ''.'')"

text \<open>The segments of a path: its pieces between slashes that are not empty.\<close>

definition path_segments :: "string \<Rightarrow> string list" where
  "path_segments p = filter (\<lambda>s. s \<noteq> []) (split_sep p)"

text \<open>\<open>s.startsWith(r)\<close>.\<close>

definition startsWith :: "string \<Rightarrow> string \<Rightarrow> bool" where
  "startsWith s r = prefix r s"


text \<open>\<open>s.includes(r)\<close>.\<close>

definition str_includes :: "string \<Rightarrow> string \<Rightarrow> bool" where
  "str_includes s r = sublist r s"

text \<open>
  \<open>s.toLowerCase()\<close> on code units below 256: the ASCII capitals and the Latin-1 capitals
  (all of \<open>0xC0..0xDE\<close> but the multiplication sign) move up by 32.
\<close>

definition lower_char :: "char \<Rightarrow> char" where
  "lower_char c =
     (let n = (of_char c :: nat)
      in if (65 \<le> n \<and> n \<le> 90) \<or> (192 \<le> n \<and> n \<le> 222 \<and> n \<noteq> 215)
         then char_of (n + 32) else c)"

definition toLowerCase :: "string \<Rightarrow> string" where
  "toLowerCase s = map lower_char s"

text \<open>\<open>s.trim()\<close>: the white space of ECMAScript among the code units below 256.\<close>

definition isWhiteSpace :: "char \<Rightarrow> bool" where
  "isWhiteSpace c = ((of_char c :: nat) \<in> {9, 10, 11, 12, 13, 32, 160})"

definition trim :: "string \<Rightarrow> string" where
  "trim s = rev (dropWhile isWhiteSpace (rev (dropWhile isWhiteSpace s)))"

text \<open>
  \<open>path.normalize\<close> and \<open>path.join\<close> with two arguments: the arguments that are not empty
  are joined by a slash and the result is normalised, keeping a trailing slash.
\<close>

definition path_normalize :: "string \<Rightarrow> string" where
  "path_normalize p =
     (if p = [] then ''.''
      else
        let isAbs = isAbsolute p;
            trailingSeparator = (last p = CHR ''/'');
            norm = normalizeString p (\<not> isAbs)
        in if norm = [] then (if isAbs then ''/'' else if trailingSeparator then ''./'' else ''.'')
           else (if isAbs then ''/'' else []) @ norm @ (if trailingSeparator then ''/'' else []))"

definition join :: "string \<Rightarrow> string \<Rightarrow> string" where
  "join a b =
     (if a = [] \<and> b = [] then ''.''
      else if a = [] then path_normalize b
      else if b = [] then path_normalize a
      else path_normalize (a @ ''/'' @ b))"

text \<open>
  \<open>path.basename(p)\<close>: the last component, trailing slashes ignored. With a suffix that is
  not empty and not longer than the path, the suffix is taken off the component unless
  nothing would be left; a suffix equal to the whole path gives the empty string.
\<close>

definition basename :: "string \<Rightarrow> string" where
  "basename p =
     rev (takeWhile (\<lambda>c. c \<noteq> CHR ''/'') (dropWhile (\<lambda>c. c = CHR ''/'') (rev p)))"

definition basename_ext :: "string \<Rightarrow> string \<Rightarrow> string" where
  "basename_ext p ext =
     (if ext \<noteq> [] \<and> length ext \<le> length p then
        (if ext = p then []
         else let c = basename p
              in if suffix ext c \<and> ext \<noteq> c then take (length c - length ext) c else c)
      else basename p)"

text \<open>
  \<open>path.extname(p)\<close>: the part of the last component from its last dot on; empty when
  there is no dot, when the last dot is the first character of the component, and for
  the component \<open>..\<close>.
\<close>

definition extname :: "string \<Rightarrow> string" where
  "extname p =
     (let c = basename p;
          after = takeWhile (\<lambda>x. x \<noteq> CHR ''.'') (rev c)
      in if CHR ''.'' \<notin> set c \<or> length after + 1 = length c \<or> c = ''..'' then []
         else CHR ''.'' # rev after)"

text \<open>
  \<open>path.dirname(p)\<close>: the path up to the slash before the last component, the first
  character never counted as that slash.
\<close>

definition dirname :: "string \<Rightarrow> string" where
  "dirname p =
     (case p of
        [] \<Rightarrow> ''.''
      | c # cs \<Rightarrow>
          (let r1 = dropWhile (\<lambda>x. x = CHR ''/'') (rev cs);
               r2 = dropWhile (\<lambda>x. x \<noteq> CHR ''/'') r1
           in if r2 = [] then (if c = CHR ''/'' then ''/'' else ''.'')
              else if c = CHR ''/'' \<and> length r2 = 1 then ''//''
              else c # rev (tl r2)))"

text \<open>
  A segment that normalisation keeps as it is, and the segments of \<open>path.resolve(p)\<close>
  when the working directory is absolute.
\<close>

definition normal_seg :: "string \<Rightarrow> bool" where
  "normal_seg s \<longleftrightarrow> s \<noteq> [] \<and> s \<noteq> ''.'' \<and> s \<noteq> ''..'' \<and> CHR ''/'' \<notin> set s"

definition resolved_segs :: "string \<Rightarrow> string \<Rightarrow> string list" where
  "resolved_segs c p =
     normalize_segs False (if isAbsolute p then split_sep p else split_sep c @ split_sep p)"

section \<open>The file system and the effects of a call\<close>

text \<open>
  The disk is a tree: a file with its content, or a directory with its entries by name.
  Symbolic links, permissions and entries that are neither file nor directory are not
  modelled. \<open>tree\<close> is the root directory \<open>/\<close>; \<open>recentFiles\<close> stands for the list kept in
  \<open>recent_files.json\<close>.
\<close>

datatype node = File string | Dir "(string \<times> node) list"

record world =
  tree :: node
  recentFiles :: "string list"

datatype exn = Error (exn_message: string)

text \<open>
  An asynchronous call either throws or returns, and leaves a world behind in both cases.
\<close>

type_synonym 'a io = "world \<Rightarrow> (exn + 'a) \<times> world"

definition io_return :: "'a \<Rightarrow> 'a io" where
  "io_return x = (\<lambda>w. (Inr x, w))"

definition io_throw :: "exn \<Rightarrow> 'a io" where
  "io_throw e = (\<lambda>w. (Inl e, w))"

definition io_bind :: "'a io \<Rightarrow> ('a \<Rightarrow> 'b io) \<Rightarrow> 'b io" where
  "io_bind m f = (\<lambda>w. case m w of (Inl e, w') \<Rightarrow> (Inl e, w') | (Inr x, w') \<Rightarrow> f x w')"

text \<open>\<open>try { m } catch (error) { h(error) }\<close>\<close>

definition io_catch :: "'a io \<Rightarrow> (exn \<Rightarrow> 'a io) \<Rightarrow> 'a io" where
  "io_catch m h = (\<lambda>w. case m w of (Inl e, w') \<Rightarrow> h e w' | (Inr x, w') \<Rightarrow> (Inr x, w'))"

text \<open>
  \<open>try { await m; (found) } catch { (not found) }\<close>: whether \<open>m\<close> returned.
\<close>

definition io_succeeds :: "'a io \<Rightarrow> bool io" where
  "io_succeeds m = io_catch (io_bind m (\<lambda>_. io_return True)) (\<lambda>_. io_return False)"

subsection \<open>The tree\<close>

fun lookup_node :: "node \<Rightarrow> string list \<Rightarrow> node option" where
  "lookup_node n [] = Some n"
| "lookup_node (File _) (s # ss) = None"
| "lookup_node (Dir es) (s # ss) =
     (case map_of es s of None \<Rightarrow> None | Some c \<Rightarrow> lookup_node c ss)"

text \<open>
  Writing a file: the parent must be a directory and the target must not be one.
\<close>

fun write_node :: "node \<Rightarrow> string list \<Rightarrow> string \<Rightarrow> node option" where
  "write_node t [] content = (case t of File _ \<Rightarrow> Some (File content) | Dir _ \<Rightarrow> None)"
| "write_node (File _) (s # ss) content = None"
| "write_node (Dir es) (s # ss) content =
     (case map_of es s of
        None \<Rightarrow> (if ss = [] then Some (Dir (AList.update s (File content) es)) else None)
      | Some c \<Rightarrow> map_option (\<lambda>c'. Dir (AList.update s c' es)) (write_node c ss content))"

text \<open>\<open>mkdir\<close> with \<open>recursive: true\<close>: the missing directories are made, a file in the way fails.\<close>

fun mkdirp_node :: "node \<Rightarrow> string list \<Rightarrow> node option" where
  "mkdirp_node (File _) ss = None"
| "mkdirp_node (Dir es) [] = Some (Dir es)"
| "mkdirp_node (Dir es) (s # ss) =
     map_option (\<lambda>c'. Dir (AList.update s c' es))
       (mkdirp_node (case map_of es s of None \<Rightarrow> Dir [] | Some c \<Rightarrow> c) ss)"

text \<open>Taking an entry out, with all below it; the root cannot be taken out.\<close>

fun remove_node :: "node \<Rightarrow> string list \<Rightarrow> node option" where
  "remove_node t [] = None"
| "remove_node (File _) (s # ss) = None"
| "remove_node (Dir es) (s # ss) =
     (case map_of es s of
        None \<Rightarrow> None
      | Some c \<Rightarrow>
          (if ss = [] then Some (Dir (AList.delete s es))
           else map_option (\<lambda>c'. Dir (AList.update s c' es)) (remove_node c ss)))"

text \<open>Putting a node at a path whose parent is a directory.\<close>

fun put_node :: "node \<Rightarrow> string list \<Rightarrow> node \<Rightarrow> node option" where
  "put_node t [] n = None"
| "put_node (File _) (s # ss) n = None"
| "put_node (Dir es) (s # ss) n =
     (if ss = [] then Some (Dir (AList.update s n es))
      else case map_of es s of
             None \<Rightarrow> None
           | Some c \<Rightarrow> map_option (\<lambda>c'. Dir (AList.update s c' es)) (put_node c ss n))"

text \<open>
  \<open>rename(2)\<close>: the source must exist and must not be moved below itself; a target that
  exists is replaced only by a node of its kind, and a directory only when it is empty.
\<close>

definition replaceable :: "node \<Rightarrow> node option \<Rightarrow> bool" where
  "replaceable n target =
     (case target of
        None \<Rightarrow> True
      | Some (File _) \<Rightarrow> (case n of File _ \<Rightarrow> True | Dir _ \<Rightarrow> False)
      | Some (Dir es) \<Rightarrow> (case n of File _ \<Rightarrow> False | Dir _ \<Rightarrow> es = []))"

definition rename_node :: "node \<Rightarrow> string list \<Rightarrow> string list \<Rightarrow> node option" where
  "rename_node t old new =
     (case lookup_node t old of
        None \<Rightarrow> None
      | Some n \<Rightarrow>
          if old = new then Some t
          else if prefix old new then None
          else if \<not> replaceable n (lookup_node t new) then None
          else (case remove_node t old of
                  None \<Rightarrow> None
                | Some t1 \<Rightarrow> put_node t1 new n))"

subsection \<open>The calls of \<open>fs/promises\<close>\<close>

text \<open>
  A path given to the file system is resolved against the working directory, \<open>..\<close> taking
  the segment before it away as \<open>path.resolve\<close> does (there are no symbolic links); the
  empty path names nothing. The message of an error of the file system is its code and
  its description, without the path that the real message ends with; a change that the
  file system refuses has one message for all its causes.
\<close>

definition target_of :: "string \<Rightarrow> string \<Rightarrow> string list option" where
  "target_of cwd p = (if p = [] then None else Some (path_segments (resolve cwd p)))"

definition node_at :: "string \<Rightarrow> world \<Rightarrow> string \<Rightarrow> node option" where
  "node_at cwd w p =
     (case target_of cwd p of None \<Rightarrow> None | Some ss \<Rightarrow> lookup_node (tree w) ss)"

record stats =
  isFile :: bool
  isDirectory :: bool
  stat_size :: nat

text \<open>
  The size of a file is the length of its content in UTF-8: one byte for a code unit
  below 128 and two for the others below 256.
\<close>

definition utf8_length :: "string \<Rightarrow> nat" where
  "utf8_length s = sum_list (map (\<lambda>c. if (of_char c :: nat) < 128 then 1 else 2) s)"

definition stats_of :: "node \<Rightarrow> stats" where
  "stats_of n =
     (case n of
        File content \<Rightarrow> \<lparr>isFile = True, isDirectory = False, stat_size = utf8_length content\<rparr>
      | Dir es \<Rightarrow> \<lparr>isFile = False, isDirectory = True, stat_size = 0\<rparr>)"

definition fs_access :: "string \<Rightarrow> string \<Rightarrow> unit io" where
  "fs_access cwd p =
     (\<lambda>w. case node_at cwd w p of
             None \<Rightarrow> (Inl (Error ''ENOENT: no such file or directory''), w)
           | Some n \<Rightarrow> (Inr (), w))"

definition fs_stat :: "string \<Rightarrow> string \<Rightarrow> stats io" where
  "fs_stat cwd p =
     (\<lambda>w. case node_at cwd w p of
             None \<Rightarrow> (Inl (Error ''ENOENT: no such file or directory''), w)
           | Some n \<Rightarrow> (Inr (stats_of n), w))"

definition fs_readFile :: "string \<Rightarrow> string \<Rightarrow> string io" where
  "fs_readFile cwd p =
     (\<lambda>w. case node_at cwd w p of
             None \<Rightarrow> (Inl (Error ''ENOENT: no such file or directory''), w)
           | Some (Dir es) \<Rightarrow> (Inl (Error ''EISDIR: illegal operation on a directory''), w)
           | Some (File content) \<Rightarrow> (Inr content, w))"


text \<open>A call that changes the tree: it throws and changes nothing when the change fails.\<close>

definition fs_change :: "string \<Rightarrow> string \<Rightarrow> (node \<Rightarrow> string list \<Rightarrow> node option) \<Rightarrow> unit io" where
  "fs_change cwd p change =
     (\<lambda>w. case target_of cwd p of
             None \<Rightarrow> (Inl (Error ''ENOENT: no such file or directory''), w)
           | Some ss \<Rightarrow>
               (case change (tree w) ss of
                  None \<Rightarrow> (Inl (Error ''EIO: the file system refused the operation''), w)
                | Some t \<Rightarrow> (Inr (), w\<lparr>tree := t\<rparr>)))"

definition fs_writeFile :: "string \<Rightarrow> string \<Rightarrow> string \<Rightarrow> unit io" where
  "fs_writeFile cwd p content = fs_change cwd p (\<lambda>t ss. write_node t ss content)"

definition fs_mkdir_recursive :: "string \<Rightarrow> string \<Rightarrow> unit io" where
  "fs_mkdir_recursive cwd p = fs_change cwd p mkdirp_node"

definition fs_unlink :: "string \<Rightarrow> string \<Rightarrow> unit io" where
  "fs_unlink cwd p =
     fs_change cwd p
       (\<lambda>t ss. case lookup_node t ss of Some (File _) \<Rightarrow> remove_node t ss | _ \<Rightarrow> None)"

definition fs_rm_recursive :: "string \<Rightarrow> string \<Rightarrow> unit io" where
  "fs_rm_recursive cwd p = fs_change cwd p remove_node"

definition fs_rename :: "string \<Rightarrow> string \<Rightarrow> string \<Rightarrow> unit io" where
  "fs_rename cwd old new =
     (case target_of cwd new of
        None \<Rightarrow> io_throw (Error ''ENOENT: no such file or directory'')
      | Some dst \<Rightarrow> fs_change cwd old (\<lambda>t src. rename_node t src dst))"

section \<open>The sandbox check\<close>

text \<open>
  \<open>validatePath\<close> of the chat route and of the execute-tool route:
  \<^verbatim>\<open>return resolvedPath.startsWith(resolvedRoot);\<close>
\<close>

definition validatePath :: "string \<Rightarrow> string \<Rightarrow> string \<Rightarrow> bool" where
  "validatePath cwd filePath rootDirectory =
     (let resolvedPath = resolve cwd filePath;
          resolvedRoot = resolve cwd rootDirectory
      in startsWith resolvedPath resolvedRoot)"

text \<open>
  The containment the specification asks for, in its own words: the resolved path is the
  resolved root or a descendant of it, segment by segment.
\<close>

definition spec_within_root :: "string \<Rightarrow> string \<Rightarrow> string \<Rightarrow> bool" where
  "spec_within_root cwd filePath rootDirectory =
     prefix (path_segments (resolve cwd rootDirectory)) (path_segments (resolve cwd filePath))"

text \<open>The content of the file at a place of the tree or at a path, when there is a file.\<close>

definition file_in :: "node \<Rightarrow> string list \<Rightarrow> string option" where
  "file_in t ss = (case lookup_node t ss of Some (File dat) \<Rightarrow> Some dat | _ \<Rightarrow> None)"

definition file_at :: "string \<Rightarrow> world \<Rightarrow> string \<Rightarrow> string option" where
  "file_at c w p = (case target_of c p of None \<Rightarrow> None | Some ss \<Rightarrow> file_in (tree w) ss)"

section \<open>Settings\<close>

text \<open>
  \<open>AppSettings\<close> without the theme. \<open>readSettings\<close> reads \<open>settings.json\<close>, fills in the
  defaults and never throws; what it returns is taken as given, in the environment of
  the server process together with the working directory and with whether the \<open>trash\<close>
  package does its work.
\<close>

record appSettings =
  rootDirectory :: string
  excludedExtensions :: "string list"
  excludedFolders :: "string list"

record env =
  env_cwd :: string
  env_settings :: appSettings
  env_trash :: bool

definition readSettings :: "env \<Rightarrow> appSettings io" where
  "readSettings e = io_return (env_settings e)"

text \<open>\<open>validatePathSecurity\<close> of the file management actions.\<close>

record path_check =
  valid :: bool
  resolvedPath :: string
  rootPath :: string

definition validatePathSecurity :: "env \<Rightarrow> string \<Rightarrow> path_check io" where
  "validatePathSecurity e targetPath =
     io_bind (readSettings e) (\<lambda>settings.
       let resolvedPath = resolve (env_cwd e) targetPath;
           rootPath = resolve (env_cwd e) (rootDirectory settings)
       in io_return
            \<lparr>valid = startsWith resolvedPath rootPath,
             resolvedPath = resolvedPath,
             rootPath = rootPath\<rparr>)"

section \<open>The file store\<close>

text \<open>
  The results of the server actions: \<open>{success, error?}\<close>, with the path or the byte
  count that some of them add. The handler that ends every action but \<open>readFile\<close> is
  \<^verbatim>\<open>catch (error) { return { success: false, error: error.message } }\<close>.
\<close>

record result =
  success :: bool
  error :: "string option"

record file_result = result +
  filePath :: "string option"

record path_result = result +
  newPath :: "string option"


definition createFile :: "env \<Rightarrow> string \<Rightarrow> string \<Rightarrow> string \<Rightarrow> file_result io" where
  "createFile e parentPath fileName content =
     io_catch
       (io_bind (readSettings e) (\<lambda>settings.
          let targetDir = (if parentPath \<noteq> [] then parentPath else rootDirectory settings);
              filePath = join targetDir fileName
          in io_bind (validatePathSecurity e filePath) (\<lambda>chk.
               if \<not> valid chk then
                 io_return \<lparr>success = False,
                   error = Some ''Access denied: Path is outside the allowed directory'',
                   filePath = None\<rparr>
               else
                 io_bind (io_succeeds (fs_access (env_cwd e) (resolvedPath chk))) (\<lambda>found.
                   if found then
                     io_return \<lparr>success = False,
                       error = Some ''A file with this name already exists'',
                       filePath = None\<rparr>
                   else
                     io_bind (fs_mkdir_recursive (env_cwd e) (dirname (resolvedPath chk))) (\<lambda>_.
                     io_bind (fs_writeFile (env_cwd e) (resolvedPath chk) content) (\<lambda>_.
                     io_return \<lparr>success = True, error = None,
                       filePath = Some (resolvedPath chk)\<rparr>))))))
       (\<lambda>err. io_return \<lparr>success = False, error = Some (exn_message err), filePath = None\<rparr>)"

definition renameItem :: "env \<Rightarrow> string \<Rightarrow> string \<Rightarrow> path_result io" where
  "renameItem e oldPath newName =
     io_catch
       (io_bind (validatePathSecurity e oldPath) (\<lambda>old.
          if \<not> valid old then
            io_return \<lparr>success = False,
              error = Some ''Access denied: Source path is outside the allowed directory'',
              newPath = None\<rparr>
          else
            let parentDir = dirname (resolvedPath old);
                newPath = join parentDir newName
            in io_bind (validatePathSecurity e newPath) (\<lambda>new.
                 if \<not> valid new then
                   io_return \<lparr>success = False,
                     error = Some ''Access denied: Destination path is outside the allowed directory'',
                     newPath = None\<rparr>
                 else
                   io_bind (io_succeeds (fs_access (env_cwd e) (resolvedPath new))) (\<lambda>found.
                     if found then
                       io_return \<lparr>success = False,
                         error = Some ''An item with this name already exists'',
                         newPath = None\<rparr>
                     else
                       io_bind (fs_rename (env_cwd e) (resolvedPath old) (resolvedPath new)) (\<lambda>_.
                       io_return \<lparr>success = True, error = None,
                         newPath = Some (resolvedPath new)\<rparr>)))))
       (\<lambda>err. io_return \<lparr>success = False, error = Some (exn_message err), newPath = None\<rparr>)"

definition moveItem :: "env \<Rightarrow> string \<Rightarrow> string \<Rightarrow> path_result io" where
  "moveItem e sourcePath targetFolderPath =
     io_catch
       (io_bind (validatePathSecurity e sourcePath) (\<lambda>src.
          if \<not> valid src then
            io_return \<lparr>success = False,
              error = Some ''Access denied: Source path is outside the allowed directory'',
              newPath = None\<rparr>
          else
            let itemName = basename (resolvedPath src);
                destinationPath = join targetFolderPath itemName
            in io_bind (validatePathSecurity e destinationPath) (\<lambda>dest.
                 if \<not> valid dest then
                   io_return \<lparr>success = False,
                     error = Some ''Access denied: Destination path is outside the allowed directory'',
                     newPath = None\<rparr>
                 else if startsWith (resolvedPath dest) (resolvedPath src @ sep) then
                   io_return \<lparr>success = False,
                     error = Some ''Cannot move a folder into itself'',
                     newPath = None\<rparr>
                 else
                   io_bind (io_succeeds (fs_access (env_cwd e) (resolvedPath dest))) (\<lambda>found.
                     if found then
                       io_return \<lparr>success = False,
                         error = Some ''An item with this name already exists at the destination'',
                         newPath = None\<rparr>
                     else
                       io_bind (fs_mkdir_recursive (env_cwd e) (dirname (resolvedPath dest))) (\<lambda>_.
                       io_bind (fs_rename (env_cwd e) (resolvedPath src) (resolvedPath dest)) (\<lambda>_.
                       io_return \<lparr>success = True, error = None,
                         newPath = Some (resolvedPath dest)\<rparr>))))))
       (\<lambda>err. io_return \<lparr>success = False, error = Some (exn_message err), newPath = None\<rparr>)"

text \<open>
  \<open>deleteItem\<close>. The \<open>trash\<close> package takes the item away from its place when it works
  and throws when it does not; \<open>removeRecentFile\<close> catches its own errors.
\<close>

definition trash :: "env \<Rightarrow> string \<Rightarrow> unit io" where
  "trash e p =
     (if env_trash e then fs_rm_recursive (env_cwd e) p
      else io_throw (Error ''trash is not available''))"

definition removeRecentFile :: "string \<Rightarrow> result io" where
  "removeRecentFile p =
     (\<lambda>w. (Inr \<lparr>success = True, error = None\<rparr>,
            w\<lparr>recentFiles := filter (\<lambda>f. f \<noteq> p) (recentFiles w)\<rparr>))"

definition permanentDelete :: "env \<Rightarrow> stats \<Rightarrow> string \<Rightarrow> unit io" where
  "permanentDelete e st p =
     (if isDirectory st then fs_rm_recursive (env_cwd e) p else fs_unlink (env_cwd e) p)"

definition deleteItem :: "env \<Rightarrow> string \<Rightarrow> bool \<Rightarrow> result io" where
  "deleteItem e itemPath useTrash =
     io_catch
       (io_bind (validatePathSecurity e itemPath) (\<lambda>chk.
          if \<not> valid chk then
            io_return \<lparr>success = False,
              error = Some ''Access denied: Path is outside the allowed directory''\<rparr>
          else
            io_bind (fs_stat (env_cwd e) (resolvedPath chk)) (\<lambda>st.
            io_bind
              (if useTrash then
                 io_catch (trash e (resolvedPath chk))
                   (\<lambda>_. permanentDelete e st (resolvedPath chk))
               else permanentDelete e st (resolvedPath chk)) (\<lambda>_.
            io_bind (removeRecentFile (resolvedPath chk)) (\<lambda>_.
            io_return \<lparr>success = True, error = None\<rparr>)))))
       (\<lambda>err. io_return \<lparr>success = False, error = Some (exn_message err)\<rparr>)"

text \<open>
  \<open>readFile\<close> and \<open>writeFile\<close> of the file actions. \<open>readFile\<close> has no handler: what it
  throws leaves the function.
\<close>

definition readFile :: "env \<Rightarrow> string \<Rightarrow> string io" where
  "readFile e file =
     io_bind (readSettings e) (\<lambda>settings.
       let resolvedPath = resolve (env_cwd e) file;
           resolvedRoot = resolve (env_cwd e) (rootDirectory settings)
       in if \<not> startsWith resolvedPath resolvedRoot then
            io_throw (Error ''Access denied: File is outside the allowed directory'')
          else
            io_bind (fs_readFile (env_cwd e) resolvedPath) (\<lambda>content. io_return content))"

definition writeFile :: "env \<Rightarrow> string \<Rightarrow> string \<Rightarrow> result io" where
  "writeFile e file content =
     io_catch
       (io_bind (readSettings e) (\<lambda>settings.
          let resolvedPath = resolve (env_cwd e) file;
              resolvedRoot = resolve (env_cwd e) (rootDirectory settings)
          in if \<not> startsWith resolvedPath resolvedRoot then
               io_throw (Error ''Access denied: File is outside the allowed directory'')
             else
               io_bind (fs_mkdir_recursive (env_cwd e) (dirname resolvedPath)) (\<lambda>_.
               io_bind (fs_writeFile (env_cwd e) resolvedPath content) (\<lambda>_.
               io_return \<lparr>success = True, error = None\<rparr>))))
       (\<lambda>err. io_return \<lparr>success = False, error = Some (exn_message err)\<rparr>)"

subsection \<open>Duplicating a file\<close>

text \<open>The decimal digits of a number, as a template literal prints it.\<close>

fun show_nat :: "nat \<Rightarrow> string" where
  "show_nat n =
     (if n < 10 then [char_of (48 + n)]
      else show_nat (n div 10) @ [char_of (48 + n mod 10)])"

declare show_nat.simps [simp del]

text \<open>
  A call that may also not return: \<open>None\<close> is the run that never ends.
\<close>

type_synonym 'a io_partial = "world \<Rightarrow> ((exn + 'a) \<times> world) option"

definition iop_lift :: "'a io \<Rightarrow> 'a io_partial" where
  "iop_lift m = (\<lambda>w. Some (m w))"

definition iop_bind :: "'a io_partial \<Rightarrow> ('a \<Rightarrow> 'b io_partial) \<Rightarrow> 'b io_partial" where
  "iop_bind m f =
     (\<lambda>w. case m w of
             None \<Rightarrow> None
           | Some (Inl e, w') \<Rightarrow> Some (Inl e, w')
           | Some (Inr x, w') \<Rightarrow> f x w')"

definition iop_catch :: "'a io_partial \<Rightarrow> (exn \<Rightarrow> 'a io_partial) \<Rightarrow> 'a io_partial" where
  "iop_catch m h =
     (\<lambda>w. case m w of
             None \<Rightarrow> None
           | Some (Inl e, w') \<Rightarrow> h e w'
           | Some (Inr x, w') \<Rightarrow> Some (Inr x, w'))"

text \<open>
  The loop of \<open>duplicateFile\<close> that looks for a free name:
  \<^verbatim>\<open>while (true) { try { await fs.access(newPath); counter++;
    newName = `${baseName} copy ${counter}${ext}`; newPath = path.join(dir, newName); }
    catch { break; } }\<close>
  \<open>candidate\<close> is the \<open>newPath\<close> of the loop, which returns the path it stops at.
\<close>

partial_function (option) findUniqueName ::
  "string \<Rightarrow> string \<Rightarrow> string \<Rightarrow> string \<Rightarrow> string \<Rightarrow> nat \<Rightarrow> world \<Rightarrow> ((exn + string) \<times> world) option"
where
  "findUniqueName c dir baseName ext candidate counter w =
     (case io_succeeds (fs_access c candidate) w of
        (Inl err, w') \<Rightarrow> Some (Inl err, w')
      | (Inr found, w') \<Rightarrow>
          if found then
            findUniqueName c dir baseName ext
              (join dir (baseName @ '' copy '' @ show_nat (counter + 1) @ ext)) (counter + 1) w'
          else Some (Inr candidate, w'))"

declare findUniqueName.simps [code]

definition duplicateFile :: "env \<Rightarrow> string \<Rightarrow> path_result io_partial" where
  "duplicateFile e file =
     iop_catch
       (iop_bind (iop_lift (validatePathSecurity e file)) (\<lambda>chk.
          if \<not> valid chk then
            iop_lift (io_return \<lparr>success = False,
              error = Some ''Access denied: Path is outside the allowed directory'',
              newPath = None\<rparr>)
          else
            iop_bind (iop_lift (fs_stat (env_cwd e) (resolvedPath chk))) (\<lambda>st.
              if \<not> isFile st then
                iop_lift (io_return \<lparr>success = False,
                  error = Some ''Can only duplicate files'', newPath = None\<rparr>)
              else
                let ext = extname (resolvedPath chk);
                    baseName = basename_ext (resolvedPath chk) ext;
                    dir = dirname (resolvedPath chk);
                    newName = baseName @ '' copy'' @ ext
                in iop_bind (findUniqueName (env_cwd e) dir baseName ext (join dir newName) 1) (\<lambda>newPath.
                   iop_bind (iop_lift (fs_readFile (env_cwd e) (resolvedPath chk))) (\<lambda>content.
                   iop_bind (iop_lift (fs_writeFile (env_cwd e) newPath content)) (\<lambda>_.
                   iop_lift (io_return \<lparr>success = True, error = None,
                     newPath = Some newPath\<rparr>)))))))
       (\<lambda>err. iop_lift (io_return
          \<lparr>success = False, error = Some (exn_message err), newPath = None\<rparr>))"

section \<open>Accepting a proposed change\<close>









section \<open>The tools of the conversation route\<close>

text \<open>
  A tool is made for the root directory of the request, which may be absent; \<open>if
  (rootDirectory)\<close> holds for a string that is not empty, and \<open>pattern || "*"\<close> is the
  pattern when it is one.
\<close>

definition truthy :: "string option \<Rightarrow> bool" where
  "truthy s = (case s of None \<Rightarrow> False | Some r \<Rightarrow> r \<noteq> [])"

definition or_else :: "string option \<Rightarrow> string \<Rightarrow> string" where
  "or_else s d = (case s of None \<Rightarrow> d | Some r \<Rightarrow> if r \<noteq> [] then r else d)"

definition quoted :: "string \<Rightarrow> string" where
  "quoted s = [CHR 0x27] @ s @ [CHR 0x27]"

text \<open>
  \<open>proposeDocumentChange\<close>: an error or a proposal. \<open>now\<close> is the time stamp
  \<open>new Date().toISOString()\<close>.
\<close>

datatype propose_result =
    ProposeError (pe_error: string) (pe_hint: string)
  | Proposal (pr_message: string) (pr_path: string) (pr_proposedContent: string)
      (pr_summary: string) (pr_contentLength: nat) (pr_timestamp: string)

definition proposeDocumentChange ::
  "string \<Rightarrow> string option \<Rightarrow> string \<Rightarrow> string \<Rightarrow> string \<Rightarrow> string \<Rightarrow> propose_result io"
where
  "proposeDocumentChange c root now targetPath newContent summary =
     (if targetPath = [] \<or> trim targetPath = [] then
        io_return (ProposeError
          ''ERROR: No file path provided. The AI must use the exact path from the context.''
          (''Use the path exactly as shown in the '' @ quoted ''Current File Path'' @ '' context.''))
      else if truthy root \<and> \<not> validatePath c targetPath (or_else root []) then
        io_return (ProposeError
          (''Access denied: Path '' @ quoted targetPath
             @ '' is outside the allowed directory '' @ quoted (or_else root []))
          (''Ensure you'' @ [CHR 0x27] @ ''re using the exact path from the context, not a modified version.''))
      else
        io_return (Proposal (''Proposed changes ready for review: '' @ summary)
          targetPath newContent summary (length newContent) now))"












section \<open>Models and the conversation endpoint\<close>

datatype provider = OpenAI | Anthropic | Google

record modelConfig =
  mc_id :: string
  mc_name :: string
  mc_provider :: provider

definition MODELS :: "modelConfig list" where
  "MODELS =
     [\<lparr>mc_id = ''gpt-5.2'', mc_name = ''GPT-5.2'', mc_provider = OpenAI\<rparr>,
      \<lparr>mc_id = ''gpt-5.2-turbo'', mc_name = ''GPT-5.2 Turbo'', mc_provider = OpenAI\<rparr>,
      \<lparr>mc_id = ''o3-preview'', mc_name = ''O3 Preview'', mc_provider = OpenAI\<rparr>,
      \<lparr>mc_id = ''gpt-4o'', mc_name = ''GPT-4o'', mc_provider = OpenAI\<rparr>,
      \<lparr>mc_id = ''gpt-4o-mini'', mc_name = ''GPT-4o Mini'', mc_provider = OpenAI\<rparr>,
      \<lparr>mc_id = ''claude-sonnet-4-20250514'', mc_name = ''Claude Sonnet 4'',
        mc_provider = Anthropic\<rparr>,
      \<lparr>mc_id = ''claude-3-5-sonnet-latest'', mc_name = ''Claude 3.5 Sonnet'',
        mc_provider = Anthropic\<rparr>,
      \<lparr>mc_id = ''gemini-3-pro-preview'', mc_name = ''Gemini 3 Pro Preview'',
        mc_provider = Google\<rparr>,
      \<lparr>mc_id = ''gemini-3-flash-preview'', mc_name = ''Gemini 3 Flash Preview'',
        mc_provider = Google\<rparr>,
      \<lparr>mc_id = ''gemini-2.5-pro'', mc_name = ''Gemini 2.5 Pro'', mc_provider = Google\<rparr>,
      \<lparr>mc_id = ''gemini-2.0-flash-exp'', mc_name = ''Gemini 2.0 Flash'',
        mc_provider = Google\<rparr>]"

definition ALLOWED_MODEL_IDS :: "string list" where
  "ALLOWED_MODEL_IDS = map mc_id MODELS"

definition isValidModelId :: "string \<Rightarrow> bool" where
  "isValidModelId modelId = (modelId \<in> set ALLOWED_MODEL_IDS)"

definition getModelConfig :: "string \<Rightarrow> modelConfig option" where
  "getModelConfig modelId = find (\<lambda>m. mc_id m = modelId) MODELS"

text \<open>A language model is the client of a provider for a model identifier.\<close>

datatype languageModel = LanguageModel provider string

definition getModelInstance :: "string \<Rightarrow> languageModel" where
  "getModelInstance modelId =
     (case getModelConfig modelId of
        None \<Rightarrow> LanguageModel OpenAI ''gpt-4o-mini''
      | Some config \<Rightarrow> LanguageModel (mc_provider config) modelId)"

definition getProviderFromModelId :: "string \<Rightarrow> provider" where
  "getProviderFromModelId modelId =
     (case getModelConfig modelId of None \<Rightarrow> OpenAI | Some config \<Rightarrow> mc_provider config)"

definition DEFAULT_MODEL_ID :: string where
  "DEFAULT_MODEL_ID = ''gemini-3-flash-preview''"

definition EDIT_KEYWORDS :: "string list" where
  "EDIT_KEYWORDS =
     [''save'', ''update'', ''rewrite'', ''edit'', ''change'', ''modify'', ''add'', ''remove'',
      ''delete'', ''insert'', ''append'', ''prepend'', ''replace'', ''refactor'', ''fix'',
      ''improve'', ''optimize'', ''summarize into'', ''write to'', ''put in'', ''generate'',
      ''create'', ''make'', ''transform'', ''convert'', ''format'', ''restructure'']"

definition shouldForceToolUse :: "string \<Rightarrow> bool" where
  "shouldForceToolUse msg =
     (let lowerMessage = toLowerCase msg
      in list_ex (\<lambda>keyword. str_includes lowerMessage keyword) EDIT_KEYWORDS)"

text \<open>
  The body of a request, parsed: the messages with their role and their content when it
  is a string, the model when the body names one, and the root directory. The answer is
  a JSON response with its status, or the stream of an agent made for the request; the
  instructions of the agent are not modelled.
\<close>

record chatMessage =
  msg_role :: string
  msg_content :: "string option"

record chatRequest =
  rq_messages :: "chatMessage list"
  rq_model :: "string option"
  rq_rootDirectory :: "string option"

datatype toolChoice = Required | Auto

record agent =
  ag_model :: languageModel
  ag_provider :: provider
  ag_tools :: "string list"
  ag_toolChoice :: toolChoice
  ag_maxSteps :: nat

datatype response = JsonResponse nat string | AgentStream agent

definition POST :: "chatRequest \<Rightarrow> response" where
  "POST body =
     (let model = (case rq_model body of None \<Rightarrow> DEFAULT_MODEL_ID | Some m \<Rightarrow> m)
      in if \<not> isValidModelId model then JsonResponse 400 ''{\"error\":\"Invalid model\"}''
         else
           let users = filter (\<lambda>m. msg_role m = ''user'') (rq_messages body);
               lastMessageContent = (if users = [] then Some [] else msg_content (last users));
               forceToolUse =
                 (case lastMessageContent of None \<Rightarrow> False | Some t \<Rightarrow> shouldForceToolUse t);
               modelInstance = getModelInstance model;
               providerName = getProviderFromModelId model
           in AgentStream
                \<lparr>ag_model = modelInstance,
                 ag_provider = providerName,
                 ag_tools =
                   [''proposeDocumentChange'', ''readMarkdownFile'', ''searchMarkdownFiles'',
                    ''searchMarkdownContent'', ''listFileTree''],
                 ag_toolChoice = (if forceToolUse then Required else Auto),
                 ag_maxSteps = 5\<rparr>)"

section \<open>Reading a directory\<close>







definition is_dir :: "node \<Rightarrow> bool" where
  "is_dir n = (case n of Dir _ \<Rightarrow> True | File _ \<Rightarrow> False)"







section \<open>A small disk for the scenarios\<close>

text \<open>
  The root directory \<open>/w\<close> of the scenarios, with two documents, a text file and a
  folder in a folder; beside it a directory \<open>/outside\<close> that the settings do not allow.
\<close>

definition scenario_world :: world where
  "scenario_world =
     \<lparr>tree = Dir [(''w'', Dir [(''a.md'', File ''old''), (''b.md'', File ''B''),
                              (''notes.txt'', File ''n''),
                              (''sub'', Dir [(''inner'', Dir [])])]),
                   (''outside'', Dir [(''a.md'', File ''x''), (''b.md'', File ''y'')])],
      recentFiles = []\<rparr>"

definition scenario_env :: env where
  "scenario_env =
     \<lparr>env_cwd = ''/app'',
      env_settings =
        \<lparr>rootDirectory = ''/w'', excludedExtensions = [''.log''], excludedFolders = [''.git'']\<rparr>,
      env_trash = False\<rparr>"

section \<open>Verified properties\<close>

subsection \<open>The sandbox check\<close>

lemmas path_eval_defs =
  resolve_def isAbsolute_def normalizeString_def normalize_segs_def normalize_step_def
  startsWith_def path_segments_def

lemmas io_defs = io_return_def io_throw_def io_bind_def io_catch_def io_succeeds_def

text \<open>
  C1. The check is a comparison of strings: with the root \<open>/docs\<close> it accepts
  \<open>/docs-other/x\<close>, which is neither the root nor below it. Both the check of the
  routes and the check of the file management actions do so.
\<close>

theorem validatePath_accepts_sibling_of_root:
  "validatePath c ''/docs-other/x'' ''/docs''
   \<and> fst (validatePathSecurity
            \<lparr>env_cwd = c,
             env_settings = \<lparr>rootDirectory = ''/docs'', excludedExtensions = xs, excludedFolders = fs\<rparr>,
             env_trash = t\<rparr>
            ''/docs-other/x'' w)
       = Inr \<lparr>valid = True, resolvedPath = ''/docs-other/x'', rootPath = ''/docs''\<rparr>
   \<and> \<not> spec_within_root c ''/docs-other/x'' ''/docs''"
  by (simp add: validatePath_def validatePathSecurity_def readSettings_def spec_within_root_def
      path_eval_defs io_defs)

subsection \<open>The conversation endpoint\<close>

lemma getModelConfig_valid:
  assumes "isValidModelId m"
  shows "\<exists>config. getModelConfig m = Some config \<and> mc_id config = m"
proof -
  from assms have "\<exists>x\<in>set MODELS. mc_id x = m"
    unfolding isValidModelId_def ALLOWED_MODEL_IDS_def by auto
  then have "find (\<lambda>c. mc_id c = m) MODELS \<noteq> None"
    unfolding find_None_iff by blast
  then obtain config where c: "find (\<lambda>c. mc_id c = m) MODELS = Some config"
    by blast
  then have "mc_id config = m"
    unfolding find_Some_iff by blast
  with c show ?thesis
    by (simp add: getModelConfig_def)
qed

text \<open>
  C5. A request that names a model outside the allow-list is answered with status 400;
  and whenever an agent is made, its model is the client of the provider that the list
  gives for the very identifier of the request (or for the default identifier when the
  request names none): the fallback of \<open>getModelInstance\<close> is never reached.
\<close>

theorem POST_fails_closed:
  "(rq_model body = Some m \<and> \<not> isValidModelId m \<longrightarrow>
      POST body = JsonResponse 400 ''{\"error\":\"Invalid model\"}'')
   \<and> (\<forall>a. POST body = AgentStream a \<longrightarrow>
         (\<exists>config. config \<in> set MODELS
            \<and> mc_id config = (case rq_model body of None \<Rightarrow> DEFAULT_MODEL_ID | Some x \<Rightarrow> x)
            \<and> ag_model a = LanguageModel (mc_provider config) (mc_id config)
            \<and> ag_provider a = mc_provider config))"
proof (intro conjI impI allI)
  assume "rq_model body = Some m \<and> \<not> isValidModelId m"
  then show "POST body = JsonResponse 400 ''{\"error\":\"Invalid model\"}''"
    by (simp add: POST_def)
next
  fix a
  assume a: "POST body = AgentStream a"
  let ?m = "case rq_model body of None \<Rightarrow> DEFAULT_MODEL_ID | Some x \<Rightarrow> x"
  from a have v: "isValidModelId ?m"
    by (auto simp: POST_def Let_def split: if_splits)
  then obtain config where c: "getModelConfig ?m = Some config" "mc_id config = ?m"
    using getModelConfig_valid by blast
  from c(1) have "config \<in> set MODELS"
    unfolding getModelConfig_def find_Some_iff by auto
  moreover from a v c have "ag_model a = LanguageModel (mc_provider config) (mc_id config)"
    and "ag_provider a = mc_provider config"
    by (auto simp: POST_def Let_def getModelInstance_def getProviderFromModelId_def split: if_splits)
  ultimately show "\<exists>config. config \<in> set MODELS
            \<and> mc_id config = ?m
            \<and> ag_model a = LanguageModel (mc_provider config) (mc_id config)
            \<and> ag_provider a = mc_provider config"
    using c(2) by blast
qed


theorem POST_fails_closed_witness:
  "(rq_model \<lparr>rq_messages = [], rq_model = Some ''gpt-9'', rq_rootDirectory = None\<rparr> = Some ''gpt-9''
    \<and> \<not> isValidModelId ''gpt-9''
    \<and> POST \<lparr>rq_messages = [], rq_model = Some ''gpt-9'', rq_rootDirectory = None\<rparr>
        = JsonResponse 400 ''{\"error\":\"Invalid model\"}'')
   \<and> (\<exists>a. POST \<lparr>rq_messages = [], rq_model = Some ''gpt-4o'', rq_rootDirectory = None\<rparr>
            = AgentStream a
          \<and> ag_model a = LanguageModel OpenAI ''gpt-4o'')"
  using POST_fails_closed [of "\<lparr>rq_messages = [], rq_model = Some ''gpt-9'', rq_rootDirectory = None\<rparr>" "''gpt-9''"]
    POST_fails_closed [of "\<lparr>rq_messages = [], rq_model = Some ''gpt-4o'', rq_rootDirectory = None\<rparr>"]
  by (simp add: POST_def isValidModelId_def ALLOWED_MODEL_IDS_def MODELS_def
      getModelInstance_def getModelConfig_def getProviderFromModelId_def)

subsection \<open>Results of the file store\<close>

lemma io_catch_returns:
  assumes "\<And>err w1. \<exists>r w'. h err w1 = (Inr r, w')"
  shows "\<exists>r w'. io_catch m h w = (Inr r, w')"
proof (cases "m w")
  case (Pair x w1)
  then show ?thesis
    using assms by (cases x) (auto simp: io_catch_def)
qed

lemma iop_catch_returns:
  assumes "\<And>err w1. \<exists>r w'. h err w1 = Some (Inr r, w')"
    and "iop_catch m h w = Some x"
  shows "\<exists>r. fst x = Inr r"
proof (cases "m w")
  case None
  with assms(2) show ?thesis by (simp add: iop_catch_def)
next
  case (Some y)
  obtain v w1 where y: "y = (v, w1)" by (cases y)
  show ?thesis
  proof (cases v)
    case (Inl err)
    with Some y assms(2) have "h err w1 = Some x" by (simp add: iop_catch_def)
    with assms(1) [of err w1] show ?thesis by auto
  next
    case (Inr r)
    with Some y assms(2) show ?thesis by (auto simp: iop_catch_def)
  qed
qed

lemma writeFile_returns: "\<exists>r w'. writeFile e p dat w = (Inr r, w')"
  unfolding writeFile_def by (rule io_catch_returns) (simp add: io_return_def)

lemma createFile_returns: "\<exists>r w'. createFile e d n dat w = (Inr r, w')"
  unfolding createFile_def by (rule io_catch_returns) (simp add: io_return_def)

lemma renameItem_returns: "\<exists>r w'. renameItem e p n w = (Inr r, w')"
  unfolding renameItem_def by (rule io_catch_returns) (simp add: io_return_def)

lemma moveItem_returns: "\<exists>r w'. moveItem e p t w = (Inr r, w')"
  unfolding moveItem_def by (rule io_catch_returns) (simp add: io_return_def)

lemma deleteItem_returns: "\<exists>r w'. deleteItem e p u w = (Inr r, w')"
  unfolding deleteItem_def by (rule io_catch_returns) (simp add: io_return_def)

lemma duplicateFile_never_raises:
  "duplicateFile e p w = Some x \<Longrightarrow> \<exists>r. fst x = Inr r"
  unfolding duplicateFile_def
  by (erule iop_catch_returns [rotated]) (simp add: iop_lift_def io_return_def)

lemma readFile_eq:
  "readFile e p w =
     (if \<not> startsWith (resolve (env_cwd e) p) (resolve (env_cwd e) (rootDirectory (env_settings e)))
      then (Inl (Error ''Access denied: File is outside the allowed directory''), w)
      else fs_readFile (env_cwd e) (resolve (env_cwd e) p) w)"
  by (cases "fs_readFile (env_cwd e) (resolve (env_cwd e) p) w")
     (auto simp: readFile_def readSettings_def io_defs Let_def split: sum.splits)

subsection \<open>Creating, renaming and moving onto something that exists\<close>







subsection \<open>The tools\<close>

lemma trim_Nil [simp]: "trim [] = []"
  by (simp add: trim_def)

text \<open>
  C3, as the code has it. A path that is not blank and that passes the sandbox check (a
  check made only when a root directory is set) gives a proposal that carries the path,
  the new content and the summary unchanged; a path that is empty or blank gives an
  error; and in every case the disk is as it was.
\<close>

theorem proposeDocumentChange_stages_only:
  "(trim targetPath \<noteq> [] \<and> (truthy root \<longrightarrow> validatePath c targetPath (or_else root [])) \<longrightarrow>
      proposeDocumentChange c root now targetPath newContent summary w =
        (Inr (Proposal (''Proposed changes ready for review: '' @ summary)
                targetPath newContent summary (length newContent) now), w))
   \<and> (trim targetPath = [] \<longrightarrow>
        (\<exists>msg hint. proposeDocumentChange c root now targetPath newContent summary w =
           (Inr (ProposeError msg hint), w)))
   \<and> snd (proposeDocumentChange c root now targetPath newContent summary w) = w"
  by (auto simp: proposeDocumentChange_def io_return_def)

text \<open>Scenario B, and the empty path.\<close>

theorem proposeDocumentChange_stages_only_witness:
  "trim ''/w/a.md'' \<noteq> [] \<and> validatePath ''/app'' ''/w/a.md'' ''/w''
   \<and> proposeDocumentChange ''/app'' (Some ''/w'') ''2026-01-01T00:00:00.000Z'' ''/w/a.md'' ''# Hi''
        ''add heading'' scenario_world
     = (Inr (Proposal ''Proposed changes ready for review: add heading'' ''/w/a.md'' ''# Hi''
              ''add heading'' 4 ''2026-01-01T00:00:00.000Z''), scenario_world)
   \<and> trim [] = []
   \<and> (\<exists>msg hint. proposeDocumentChange ''/app'' (Some ''/w'') ''2026-01-01T00:00:00.000Z'' [] ''# Hi''
        ''add heading'' scenario_world = (Inr (ProposeError msg hint), scenario_world))"
proof -
  have a: "trim ''/w/a.md'' \<noteq> []" by code_simp
  have b: "validatePath ''/app'' ''/w/a.md'' ''/w''" by code_simp
  from a b proposeDocumentChange_stages_only [of "''/w/a.md''" "Some ''/w''" "''/app''"
      "''2026-01-01T00:00:00.000Z''" "''# Hi''" "''add heading''" scenario_world]
    proposeDocumentChange_stages_only [of "[]" "Some ''/w''" "''/app''"
      "''2026-01-01T00:00:00.000Z''" "''# Hi''" "''add heading''" scenario_world]
  show ?thesis by (simp add: truthy_def or_else_def)
qed


text \<open>
  The claim as stated fails for a path of white space only: it is not empty, the root
  \<open>/\<close> contains what it resolves to, and the tool answers with an error.
\<close>

theorem propose_blank_path_is_error:
  "'' '' \<noteq> [] \<and> validatePath ''/app'' '' '' ''/''
   \<and> proposeDocumentChange ''/app'' (Some ''/'') ''2026-01-01T00:00:00.000Z'' '' '' ''# Hi'' ''add heading''
        scenario_world
     = (Inr (ProposeError
          ''ERROR: No file path provided. The AI must use the exact path from the context.''
          (''Use the path exactly as shown in the '' @ quoted ''Current File Path'' @ '' context.'')),
        scenario_world)"
  by code_simp




subsection \<open>Accepting a proposed change\<close>

lemma lookup_write_node:
  "write_node t ss dat = Some t' \<Longrightarrow> lookup_node t' ss = Some (File dat)"
proof (induction t ss dat arbitrary: t' rule: write_node.induct)
  case (1 t dat)
  then show ?case by (cases t) auto
next
  case (2 uu s ss dat)
  then show ?case by simp
next
  case (3 es s ss dat)
  show ?case
  proof (cases "map_of es s")
    case None
    with 3 show ?thesis
      by (auto simp: update_conv' split: if_splits)
  next
    case (Some c)
    with 3 show ?thesis
      by (auto simp: update_conv')
  qed
qed






subsection \<open>Reading a directory\<close>




















section \<open>Properties of paths\<close>

subsection \<open>Splitting and joining\<close>

lemma split_sep_nonempty [simp]: "split_sep s \<noteq> []"
  by (induction s) auto

lemma split_sep_append: "split_sep (a @ CHR ''/'' # b) = split_sep a @ split_sep b"
  by (induction a) (auto simp: hd_append)

lemma split_sep_no_slash: "CHR ''/'' \<notin> set s \<Longrightarrow> split_sep s = [s]"
  by (induction s) auto

lemma split_sep_slash_free: "x \<in> set (split_sep s) \<Longrightarrow> CHR ''/'' \<notin> set x"
proof (induction s arbitrary: x)
  case Nil
  then show ?case by simp
next
  case (Cons c cs)
  show ?case
  proof (cases "c = CHR ''/''")
    case True
    with Cons show ?thesis by auto
  next
    case False
    obtain y ys where s: "split_sep cs = y # ys"
      by (cases "split_sep cs") auto
    with Cons False show ?thesis by auto
  qed
qed

lemma join_sep_snoc: "xs \<noteq> [] \<Longrightarrow> join_sep (xs @ [l]) = join_sep xs @ CHR ''/'' # l"
  by (induction xs rule: join_sep.induct) auto

lemma split_join_sep:
  assumes "ns \<noteq> []" and "\<forall>s\<in>set ns. CHR ''/'' \<notin> set s"
  shows "split_sep (join_sep ns) = ns"
  using assms
proof (induction ns rule: join_sep.induct)
  case 1
  then show ?case by simp
next
  case (2 s)
  then show ?case by (simp add: split_sep_no_slash)
next
  case (3 s t ss)
  then have "split_sep (join_sep (t # ss)) = t # ss" by simp
  moreover from 3 have "split_sep s = [s]" by (simp add: split_sep_no_slash)
  ultimately show ?case by (simp add: split_sep_append)
qed

lemma join_sep_eq_Nil: "\<forall>s\<in>set ns. s \<noteq> [] \<Longrightarrow> join_sep ns = [] \<longleftrightarrow> ns = []"
  by (induction ns rule: join_sep.induct) auto

lemma hd_join_sep: "ns \<noteq> [] \<Longrightarrow> hd ns \<noteq> [] \<Longrightarrow> hd (join_sep ns) = hd (hd ns)"
  by (induction ns rule: join_sep.induct) auto

subsection \<open>Normalising\<close>

lemma normalize_step_skip [simp]:
  "normalize_step a st [] = st" "normalize_step a st ''.'' = st"
  by (simp_all add: normalize_step_def)

lemma normalize_step_normal: "normal_seg s \<Longrightarrow> normalize_step a st s = s # st"
  by (simp add: normalize_step_def normal_seg_def)

lemma foldl_step_normal:
  "\<forall>s\<in>set ns. normal_seg s \<Longrightarrow> foldl (normalize_step a) st ns = rev ns @ st"
  by (induction ns arbitrary: st) (auto simp: normalize_step_normal)

lemma normalize_segs_normal: "\<forall>s\<in>set ns. normal_seg s \<Longrightarrow> normalize_segs a ns = ns"
  by (simp add: normalize_segs_def foldl_step_normal)

lemma step_False_normal:
  assumes "\<forall>s\<in>set st. normal_seg s" and "CHR ''/'' \<notin> set x"
  shows "\<forall>s\<in>set (normalize_step False st x). normal_seg s"
proof (cases st)
  case Nil
  with assms show ?thesis by (auto simp: normalize_step_def normal_seg_def)
next
  case (Cons r rs)
  with assms show ?thesis by (auto simp: normalize_step_def normal_seg_def)
qed

lemma foldl_False_normal:
  "\<forall>s\<in>set st. normal_seg s \<Longrightarrow> \<forall>x\<in>set xs. CHR ''/'' \<notin> set x \<Longrightarrow>
   \<forall>s\<in>set (foldl (normalize_step False) st xs). normal_seg s"
proof (induction xs arbitrary: st)
  case Nil
  then show ?case by simp
next
  case (Cons x xs)
  from Cons.prems have "\<forall>s\<in>set (normalize_step False st x). normal_seg s"
    by (intro step_False_normal) auto
  with Cons show ?case by simp
qed

lemma resolved_segs_normal: "s \<in> set (resolved_segs c p) \<Longrightarrow> normal_seg s"
proof -
  have "\<forall>x\<in>set (if isAbsolute p then split_sep p else split_sep c @ split_sep p). CHR ''/'' \<notin> set x"
    by (auto dest: split_sep_slash_free)
  then have "\<forall>s\<in>set (foldl (normalize_step False) []
      (if isAbsolute p then split_sep p else split_sep c @ split_sep p)). normal_seg s"
    by (intro foldl_False_normal) auto
  then show "s \<in> set (resolved_segs c p) \<Longrightarrow> normal_seg s"
    by (simp add: resolved_segs_def normalize_segs_def)
qed

text \<open>The stack of a relative normalisation holds no empty segment and no dot.\<close>

lemma step_True_keeps:
  assumes "\<forall>s\<in>set st. s \<noteq> [] \<and> s \<noteq> ''.''"
  shows "\<forall>s\<in>set (normalize_step True st x). s \<noteq> [] \<and> s \<noteq> ''.''"
proof (cases st)
  case Nil
  with assms show ?thesis by (auto simp: normalize_step_def)
next
  case (Cons r rs)
  with assms show ?thesis by (auto simp: normalize_step_def)
qed

lemma step_False_after_True:
  assumes "\<forall>s\<in>set B. s \<noteq> [] \<and> s \<noteq> ''.''"
  shows "normalize_step False (foldl (normalize_step False) A (rev B)) y
       = foldl (normalize_step False) A (rev (normalize_step True B y))"
proof (cases "y = [] \<or> y = ''.''")
  case True
  then show ?thesis by auto
next
  case False
  show ?thesis
  proof (cases "y = ''..''")
    case y: True
    show ?thesis
    proof (cases B)
      case Nil
      with y show ?thesis by (simp add: normalize_step_def)
    next
      case (Cons r rs)
      show ?thesis
      proof (cases "r = ''..''")
        case True
        with y Cons show ?thesis by (simp add: normalize_step_def)
      next
        case r: False
        from assms Cons have "r \<noteq> []" "r \<noteq> ''.''" by auto
        with r have "normalize_step False X r = r # X" for X
          by (simp add: normalize_step_def)
        with y Cons r show ?thesis by (simp add: normalize_step_def)
      qed
    qed
  next
    case n: False
    with False have "normalize_step True B y = y # B"
      by (simp add: normalize_step_def)
    then show ?thesis by simp
  qed
qed

lemma foldl_False_after_True:
  assumes "\<forall>s\<in>set B. s \<noteq> [] \<and> s \<noteq> ''.''"
  shows "foldl (normalize_step False) A (rev B @ ys)
       = foldl (normalize_step False) A (rev (foldl (normalize_step True) B ys))"
  using assms
proof (induction ys arbitrary: B)
  case Nil
  then show ?case by simp
next
  case (Cons y ys)
  have k: "\<forall>s\<in>set (normalize_step True B y). s \<noteq> [] \<and> s \<noteq> ''.''"
    using Cons.prems by (rule step_True_keeps)
  have "foldl (normalize_step False) A (rev B @ y # ys)
      = foldl (normalize_step False) (normalize_step False (foldl (normalize_step False) A (rev B)) y) ys"
    by simp
  also have "\<dots> = foldl (normalize_step False) (foldl (normalize_step False) A (rev (normalize_step True B y))) ys"
    by (simp only: step_False_after_True [OF Cons.prems])
  also have "\<dots> = foldl (normalize_step False) A (rev (normalize_step True B y) @ ys)"
    by simp
  also have "\<dots> = foldl (normalize_step False) A (rev (foldl (normalize_step True) (normalize_step True B y) ys))"
    by (rule Cons.IH [OF k])
  finally show ?case by simp
qed

lemma normalize_after_relative:
  "normalize_segs False (xs @ normalize_segs True ys) = normalize_segs False (xs @ ys)"
  using foldl_False_after_True [of "[]" "foldl (normalize_step False) [] xs" ys]
  by (simp add: normalize_segs_def)

lemma foldl_True_keeps:
  "\<forall>s\<in>set B. s \<noteq> [] \<and> s \<noteq> ''.'' \<Longrightarrow>
   \<forall>s\<in>set (foldl (normalize_step True) B ys). s \<noteq> [] \<and> s \<noteq> ''.''"
proof (induction ys arbitrary: B)
  case Nil
  then show ?case by (simp only: foldl.simps)
next
  case (Cons y ys)
  from Cons.prems have "\<forall>s\<in>set (normalize_step True B y). s \<noteq> [] \<and> s \<noteq> ''.''"
    by (rule step_True_keeps)
  then have "\<forall>s\<in>set (foldl (normalize_step True) (normalize_step True B y) ys). s \<noteq> [] \<and> s \<noteq> ''.''"
    by (rule Cons.IH)
  then show ?case by (simp only: foldl.simps)
qed

lemma normalize_segs_True_keeps:
  assumes "s \<in> set (normalize_segs True ys)"
  shows "s \<noteq> [] \<and> s \<noteq> ''.''"
proof -
  have "\<forall>s\<in>set (foldl (normalize_step True) [] ys). s \<noteq> [] \<and> s \<noteq> ''.''"
    by (rule foldl_True_keeps) (simp only: list.set ball_empty)
  moreover from assms have "s \<in> set (foldl (normalize_step True) [] ys)"
    by (simp only: normalize_segs_def set_rev)
  ultimately show ?thesis by blast
qed

subsection \<open>Resolved paths\<close>

lemma isAbsolute_Cons [simp]: "isAbsolute (c # cs) \<longleftrightarrow> c = CHR ''/''"
  by (simp add: isAbsolute_def)

lemma isAbsolute_Nil [simp]: "\<not> isAbsolute []"
  by (simp add: isAbsolute_def)

lemma isAbsolute_append: "isAbsolute a \<Longrightarrow> isAbsolute (a @ b)"
  by (cases a) auto

lemma normalize_segs_snoc_empty: "normalize_segs a (xs @ [[]]) = normalize_segs a xs"
  by (simp add: normalize_segs_def)

lemma normalize_segs_cons_empty: "normalize_segs a ([] # xs) = normalize_segs a xs"
  by (simp add: normalize_segs_def)

lemma split_sep_snoc_slash: "split_sep (a @ ''/'') = split_sep a @ [[]]"
  using split_sep_append [of a "[]"] by simp

lemma resolve_absolute_cwd:
  assumes "isAbsolute c"
  shows "resolve c p = CHR ''/'' # join_sep (resolved_segs c p)"
proof (cases "p = []")
  case True
  with assms show ?thesis
    by (simp add: resolve_def resolved_segs_def normalizeString_def isAbsolute_append
        split_sep_snoc_slash normalize_segs_snoc_empty)
next
  case False
  show ?thesis
  proof (cases "isAbsolute p")
    case True
    with False show ?thesis
      by (simp add: resolve_def resolved_segs_def normalizeString_def isAbsolute_append
          split_sep_snoc_slash normalize_segs_snoc_empty)
  next
    case rel: False
    have "split_sep (c @ ''/'' @ p @ ''/'') = split_sep c @ split_sep p @ [[]]"
      using split_sep_append [of c "p @ ''/''"] split_sep_snoc_slash [of p] by simp
    moreover have "normalize_segs False (split_sep c @ split_sep p @ [[]])
        = normalize_segs False (split_sep c @ split_sep p)"
      using normalize_segs_snoc_empty [of False "split_sep c @ split_sep p"] by simp
    ultimately show ?thesis
      using assms rel False
      by (simp add: resolve_def resolved_segs_def normalizeString_def isAbsolute_append)
  qed
qed

lemma normal_seg_slash_free: "normal_seg s \<Longrightarrow> CHR ''/'' \<notin> set s"
  by (simp add: normal_seg_def)

lemma normal_seg_nonempty: "normal_seg s \<Longrightarrow> s \<noteq> []"
  by (simp add: normal_seg_def)

lemma split_rooted:
  assumes "\<forall>s\<in>set ns. normal_seg s"
  shows "filter (\<lambda>s. s \<noteq> []) (split_sep (CHR ''/'' # join_sep ns)) = ns"
proof (cases "ns = []")
  case True
  then show ?thesis by simp
next
  case False
  with assms have "split_sep (join_sep ns) = ns"
    by (intro split_join_sep) (auto dest: normal_seg_slash_free)
  moreover from assms have "filter (\<lambda>s. s \<noteq> []) ns = ns"
    by (auto simp: filter_id_conv dest: normal_seg_nonempty)
  ultimately show ?thesis by simp
qed

lemma path_segments_resolve:
  assumes "isAbsolute c"
  shows "path_segments (resolve c p) = resolved_segs c p"
  unfolding path_segments_def resolve_absolute_cwd [OF assms]
  by (rule split_rooted) (auto dest: resolved_segs_normal)

lemma resolved_segs_rooted:
  assumes "\<forall>s\<in>set ns. normal_seg s"
  shows "resolved_segs c (CHR ''/'' # join_sep ns) = ns"
proof (cases "ns = []")
  case True
  then show ?thesis
    by (simp add: resolved_segs_def normalize_segs_def)
next
  case False
  with assms have "split_sep (join_sep ns) = ns"
    by (intro split_join_sep) (auto dest: normal_seg_slash_free)
  with assms show ?thesis
    by (simp add: resolved_segs_def normalize_segs_cons_empty normalize_segs_normal)
qed

lemma resolved_segs_snoc:
  assumes "normal_seg b" and "T \<noteq> []"
  shows "resolved_segs c (T @ CHR ''/'' # b) = resolved_segs c T @ [b]"
proof -
  from assms(1) have sb: "split_sep b = [b]"
    by (simp add: split_sep_no_slash normal_seg_slash_free)
  have snoc: "normalize_segs False (xs @ [b]) = normalize_segs False xs @ [b]" for xs
    using assms(1) by (simp add: normalize_segs_def normalize_step_normal)
  from assms(2) have abs: "isAbsolute (T @ CHR ''/'' # b) = isAbsolute T"
    by (cases T) auto
  show ?thesis
  proof (cases "isAbsolute T")
    case True
    with abs show ?thesis
      using snoc [of "split_sep T"] by (simp add: resolved_segs_def split_sep_append sb)
  next
    case False
    with abs show ?thesis
      using snoc [of "split_sep c @ split_sep T"] by (simp add: resolved_segs_def split_sep_append sb)
  qed
qed

lemma resolved_segs_relative_seg:
  assumes "normal_seg b"
  shows "resolved_segs c b = resolved_segs c [] @ [b]"
proof -
  from assms have sb: "split_sep b = [b]"
    by (simp add: split_sep_no_slash normal_seg_slash_free)
  from assms have "\<not> isAbsolute b"
    by (cases b) (auto simp: normal_seg_def)
  moreover have "normalize_segs False (split_sep c @ [b]) = normalize_segs False (split_sep c) @ [b]"
    using assms by (simp add: normalize_segs_def normalize_step_normal)
  moreover have "normalize_segs False (split_sep c @ [[]]) = normalize_segs False (split_sep c)"
    by (rule normalize_segs_snoc_empty)
  ultimately show ?thesis
    by (simp add: resolved_segs_def sb)
qed

subsection \<open>Joining and resolving\<close>

lemma normalize_step_subset: "set (normalize_step a st x) \<subseteq> insert x (set st)"
  by (cases st) (auto simp: normalize_step_def)

lemma foldl_step_subset: "set (foldl (normalize_step a) st xs) \<subseteq> set st \<union> set xs"
proof (induction xs arbitrary: st)
  case Nil
  then show ?case by simp
next
  case (Cons x xs)
  have "set (foldl (normalize_step a) (normalize_step a st x) xs)
      \<subseteq> set (normalize_step a st x) \<union> set xs"
    by (rule Cons.IH)
  with normalize_step_subset [of a st x] show ?case by auto
qed

lemma normalize_segs_subset: "set (normalize_segs a xs) \<subseteq> set xs"
  using foldl_step_subset [of a "[]" xs] by (simp add: normalize_segs_def)

lemma normalize_split_slash_free:
  "s \<in> set (normalize_segs a (split_sep p)) \<Longrightarrow> CHR ''/'' \<notin> set s"
  using normalize_segs_subset [of a "split_sep p"] split_sep_slash_free by blast

lemma normalize_split_nonempty:
  assumes "s \<in> set (normalize_segs a (split_sep p))"
  shows "s \<noteq> []"
proof (cases a)
  case True
  with assms have "s \<in> set (normalize_segs True (split_sep p))" by simp
  then show ?thesis by (rule normalize_segs_True_keeps [THEN conjunct1])
next
  case False
  have "\<forall>s\<in>set (foldl (normalize_step False) [] (split_sep p)). normal_seg s"
    by (rule foldl_False_normal) (auto dest: split_sep_slash_free)
  with assms False show ?thesis
    by (auto simp: normalize_segs_def dest: normal_seg_nonempty)
qed

lemma normalize_split_False_normal:
  "s \<in> set (normalize_segs False (split_sep p)) \<Longrightarrow> normal_seg s"
proof -
  have "\<forall>s\<in>set (foldl (normalize_step False) [] (split_sep p)). normal_seg s"
    by (rule foldl_False_normal) (auto dest: split_sep_slash_free)
  then show "s \<in> set (normalize_segs False (split_sep p)) \<Longrightarrow> normal_seg s"
    by (simp add: normalize_segs_def)
qed

lemma resolved_segs_dot: "resolved_segs c ''.'' = resolved_segs c []"
  by (simp add: resolved_segs_def normalize_segs_def)

lemma resolved_segs_dot_slash: "resolved_segs c ''./'' = resolved_segs c []"
  by (simp add: resolved_segs_def normalize_segs_def)

lemma resolved_segs_path_normalize: "resolved_segs c (path_normalize p) = resolved_segs c p"
proof (cases "p = []")
  case True
  then show ?thesis by (simp add: path_normalize_def resolved_segs_dot)
next
  case p: False
  let ?a = "\<not> isAbsolute p"
  let ?M = "normalize_segs ?a (split_sep p)"
  have ne: "\<forall>s\<in>set ?M. s \<noteq> []" and sf: "\<forall>s\<in>set ?M. CHR ''/'' \<notin> set s"
    using normalize_split_nonempty normalize_split_slash_free by blast+
  from ne have nil: "join_sep ?M = [] \<longleftrightarrow> ?M = []"
    by (rule join_sep_eq_Nil)
  show ?thesis
  proof (cases "isAbsolute p")
    case abs: True
    then have M: "resolved_segs c p = ?M"
      by (simp add: resolved_segs_def)
    have nM: "\<forall>s\<in>set ?M. normal_seg s"
      using abs normalize_split_False_normal by auto
    show ?thesis
    proof (cases "?M = []")
      case True
      with p abs nil have "path_normalize p = ''/''"
        by (simp add: path_normalize_def normalizeString_def Let_def)
      with M True show ?thesis
        by (simp add: resolved_segs_def normalize_segs_def)
    next
      case False
      with sf have sj: "split_sep (join_sep ?M) = ?M"
        by (intro split_join_sep) auto
      from False p abs nil have pn: "path_normalize p =
          CHR ''/'' # join_sep ?M @ (if last p = CHR ''/'' then ''/'' else [])"
        by (simp add: path_normalize_def normalizeString_def Let_def)
      have "resolved_segs c (CHR ''/'' # join_sep ?M @ (if last p = CHR ''/'' then ''/'' else [])) = ?M"
      proof (cases "last p = CHR ''/''")
        case True
        have "split_sep (join_sep ?M @ ''/'') = ?M @ [[]]"
          using split_sep_snoc_slash [of "join_sep ?M"] sj by simp
        with True nM show ?thesis
          using abs by (simp add: resolved_segs_def normalize_segs_cons_empty
              normalize_segs_snoc_empty normalize_segs_normal)
      next
        case False
        with nM show ?thesis
          using resolved_segs_rooted [of ?M c] abs by simp
      qed
      with pn M show ?thesis by simp
    qed
  next
    case rel: False
    have M: "resolved_segs c p = normalize_segs False (split_sep c @ ?M)"
      using rel by (simp add: resolved_segs_def normalize_after_relative)
    show ?thesis
    proof (cases "?M = []")
      case True
      with p rel nil have "path_normalize p = ''./'' \<or> path_normalize p = ''.''"
        by (simp add: path_normalize_def normalizeString_def Let_def)
      moreover from M True have "resolved_segs c p = resolved_segs c []"
        using normalize_segs_snoc_empty [of False "split_sep c"]
        by (simp add: resolved_segs_def)
      ultimately show ?thesis
        by (auto simp: resolved_segs_dot resolved_segs_dot_slash)
    next
      case False
      with sf have sj: "split_sep (join_sep ?M) = ?M"
        by (intro split_join_sep) auto
      from False have hM: "hd ?M \<in> set ?M" by (rule hd_in_set)
      with ne have hne: "hd ?M \<noteq> []" by blast
      then have "hd (hd ?M) \<in> set (hd ?M)" by (rule hd_in_set)
      moreover from sf hM have "CHR ''/'' \<notin> set (hd ?M)" by (rule bspec)
      ultimately have "hd (hd ?M) \<noteq> CHR ''/''" by metis
      with False hne have "hd (join_sep ?M) \<noteq> CHR ''/''"
        by (simp add: hd_join_sep)
      moreover from False nil have "join_sep ?M \<noteq> []" by simp
      ultimately have nabs: "\<not> isAbsolute (join_sep ?M @ x)" for x
        by (cases "join_sep ?M") auto
      from False p rel nil have pn: "path_normalize p =
          join_sep ?M @ (if last p = CHR ''/'' then ''/'' else [])"
        by (simp add: path_normalize_def normalizeString_def Let_def)
      have "resolved_segs c (join_sep ?M @ (if last p = CHR ''/'' then ''/'' else []))
          = normalize_segs False (split_sep c @ ?M)"
      proof (cases "last p = CHR ''/''")
        case True
        have "split_sep (join_sep ?M @ ''/'') = ?M @ [[]]"
          using split_sep_snoc_slash [of "join_sep ?M"] sj by simp
        with True show ?thesis
          using nabs [of "''/''"] normalize_segs_snoc_empty [of False "split_sep c @ ?M"]
          by (simp add: resolved_segs_def)
      next
        case False
        then show ?thesis
          using nabs [of "[]"] sj by (simp add: resolved_segs_def)
      qed
      with pn M show ?thesis by simp
    qed
  qed
qed

lemma resolved_segs_join:
  assumes "normal_seg b"
  shows "resolved_segs c (join T b) = resolved_segs c T @ [b]"
proof (cases "T = []")
  case True
  with assms have "join T b = path_normalize b"
    by (simp add: join_def normal_seg_def)
  with True assms show ?thesis
    by (simp add: resolved_segs_path_normalize resolved_segs_relative_seg)
next
  case False
  with assms have "join T b = path_normalize (T @ CHR ''/'' # b)"
    by (simp add: join_def normal_seg_def)
  with False assms show ?thesis
    by (simp add: resolved_segs_path_normalize resolved_segs_snoc)
qed


lemma path_normalize_nonempty: "path_normalize p \<noteq> []"
  by (auto simp: path_normalize_def Let_def)

lemma join_nonempty: "join a b \<noteq> []"
  by (simp add: join_def path_normalize_nonempty)

subsection \<open>The last component and the directory of a path\<close>

lemma basename_slash_free: "CHR ''/'' \<notin> set (basename p)"
proof -
  have "\<forall>x\<in>set (takeWhile (\<lambda>c. c \<noteq> CHR ''/'') ys). x \<noteq> CHR ''/''" for ys
    by (auto dest: set_takeWhileD)
  then show ?thesis
    unfolding basename_def set_rev by blast
qed





lemma dirname_rooted:
  assumes "\<forall>s\<in>set ns. normal_seg s" and "ns \<noteq> []"
  shows "dirname (CHR ''/'' # join_sep ns) = CHR ''/'' # join_sep (butlast ns)"
proof -
  from assms have nl: "normal_seg (last ns)" by simp
  then have l: "last ns \<noteq> []" "CHR ''/'' \<notin> set (last ns)"
    by (simp_all add: normal_seg_def)
  obtain x xs where r: "rev (last ns) = x # xs"
    using l(1) by (cases "rev (last ns)") auto
  then have "x \<in> set (last ns)" by (metis list.set_intros(1) set_rev)
  with l(2) have x: "x \<noteq> CHR ''/''" by blast
  have "\<And>y. y \<in> set (rev (last ns)) \<Longrightarrow> y \<noteq> CHR ''/''"
    using l(2) by auto
  then have tw: "dropWhile (\<lambda>c. c \<noteq> CHR ''/'') (rev (last ns) @ ys) = dropWhile (\<lambda>c. c \<noteq> CHR ''/'') ys" for ys
    by (rule dropWhile_append2)
  show ?thesis
  proof (cases "butlast ns = []")
    case True
    with assms(2) have "ns = [last ns]"
      by (metis append_butlast_last_id append_Nil)
    then have j: "join_sep ns = last ns" by (metis join_sep.simps(2))
    have "dropWhile (\<lambda>c. c = CHR ''/'') (rev (last ns)) = rev (last ns)"
      using r x by simp
    moreover have "dropWhile (\<lambda>c. c \<noteq> CHR ''/'') (rev (last ns)) = []"
      using tw [of "[]"] by simp
    ultimately show ?thesis
      using True j by (simp add: dirname_def)
  next
    case False
    from assms(2) have "join_sep ns = join_sep (butlast ns @ [last ns])" by simp
    also from False have "\<dots> = join_sep (butlast ns) @ CHR ''/'' # last ns"
      by (rule join_sep_snoc)
    finally have j: "join_sep ns = join_sep (butlast ns) @ CHR ''/'' # last ns" .
    from assms(1) have "\<forall>s\<in>set (butlast ns). s \<noteq> []"
      by (auto dest: in_set_butlastD normal_seg_nonempty)
    with False have jn: "join_sep (butlast ns) \<noteq> []"
      by (simp add: join_sep_eq_Nil)
    have d1: "dropWhile (\<lambda>c. c = CHR ''/'') (rev (join_sep ns))
        = rev (last ns) @ CHR ''/'' # rev (join_sep (butlast ns))"
      using r x j by simp
    have d2: "dropWhile (\<lambda>c. c \<noteq> CHR ''/'') (rev (last ns) @ CHR ''/'' # rev (join_sep (butlast ns)))
        = CHR ''/'' # rev (join_sep (butlast ns))"
      using tw [of "CHR ''/'' # rev (join_sep (butlast ns))"] by simp
    show ?thesis
      using jn by (simp add: dirname_def d1 d2)
  qed
qed

subsection \<open>Moving below the source\<close>









section \<open>Duplicating a file\<close>

subsection \<open>The tree\<close>

lemma lookup_node_append:
  "lookup_node t (ds @ ss) = (case lookup_node t ds of None \<Rightarrow> None | Some n \<Rightarrow> lookup_node n ss)"
proof (induction t ds rule: lookup_node.induct)
  case (1 n)
  then show ?case by simp
next
  case (2 uu s ss)
  then show ?case by simp
next
  case (3 es s ss')
  then show ?case by (cases "map_of es s") auto
qed

lemma lookup_node_snoc_Dir:
  "lookup_node t ds = Some (Dir es) \<Longrightarrow> lookup_node t (ds @ [x]) = map_of es x"
  by (cases "map_of es x") (simp_all add: lookup_node_append)

lemma lookup_node_parent:
  assumes "lookup_node t (ds @ [x]) = Some n"
  shows "\<exists>es. lookup_node t ds = Some (Dir es)"
proof (cases "lookup_node t ds")
  case None
  with assms show ?thesis by (simp add: lookup_node_append)
next
  case (Some m)
  with assms show ?thesis by (cases m) (simp_all add: lookup_node_append)
qed

lemma write_node_new:
  assumes "lookup_node t ds = Some (Dir es)" and "map_of es x = None"
  shows "\<exists>t'. write_node t (ds @ [x]) dat = Some t'"
  using assms
proof (induction ds arbitrary: t)
  case Nil
  then show ?case by simp
next
  case (Cons d ds)
  show ?case
  proof (cases t)
    case (File u)
    with Cons.prems show ?thesis by simp
  next
    case (Dir fs)
    show ?thesis
    proof (cases "map_of fs d")
      case None
      with Dir Cons.prems show ?thesis by simp
    next
      case (Some child)
      with Dir Cons.prems have "lookup_node child ds = Some (Dir es)" by simp
      then obtain t' where "write_node child (ds @ [x]) dat = Some t'"
        using Cons.IH Cons.prems(2) by blast
      with Dir Some show ?thesis by simp
    qed
  qed
qed

lemma write_node_frame:
  assumes "write_node t p dat = Some t'" and "lookup_node t p = None" and "q \<noteq> p"
  shows "file_in t' q = file_in t q"
  using assms
proof (induction t p dat arbitrary: t' q rule: write_node.induct)
  case (1 t dat)
  then show ?case by simp
next
  case (2 uu s ss dat)
  then show ?case by simp
next
  case (3 es s ss dat)
  show ?case
  proof (cases q)
    case Nil
    with 3 show ?thesis
      by (auto simp: file_in_def split: option.splits if_splits)
  next
    case (Cons s' qs)
    show ?thesis
    proof (cases "s' = s")
      case False
      with Cons 3 show ?thesis
        by (auto simp: file_in_def update_conv' split: option.splits if_splits)
    next
      case True
      show ?thesis
      proof (cases "map_of es s")
        case None
        with "3.prems" have ss: "ss = []" and t': "t' = Dir (AList.update s (File dat) es)"
          by (auto split: if_splits)
        from Cons True ss "3.prems"(3) have "qs \<noteq> []" by auto
        then obtain a as where "qs = a # as" by (cases qs) auto
        with Cons True None t' show ?thesis
          by (simp add: file_in_def update_conv')
      next
        case (Some child)
        with "3.prems" obtain c' where w: "write_node child ss dat = Some c'"
          and t': "t' = Dir (AList.update s c' es)"
          by auto
        from Some "3.prems"(2) have l: "lookup_node child ss = None" by simp
        from Cons True "3.prems"(3) have "qs \<noteq> ss" by auto
        with "3.IH" [OF Some w l] have "file_in c' qs = file_in child qs" by blast
        with Cons True Some t' show ?thesis
          by (simp add: file_in_def update_conv')
      qed
    qed
  qed
qed

subsection \<open>The names of copies\<close>

lemma show_nat_nonempty: "show_nat n \<noteq> []"
  by (subst show_nat.simps) simp

lemma digit_char_inj:
  assumes "a < 10" and "b < 10" and "char_of (48 + a) = (char_of (48 + b) :: char)"
  shows "a = (b::nat)"
proof -
  from assms(3) have "of_char (char_of (48 + a) :: char) = (of_char (char_of (48 + b) :: char) :: nat)"
    by simp
  with assms(1,2) show ?thesis by simp
qed

lemma show_nat_small: "n < 10 \<Longrightarrow> show_nat n = [char_of (48 + n)]"
  by (subst show_nat.simps) simp

lemma show_nat_large: "\<not> n < 10 \<Longrightarrow> show_nat n = show_nat (n div 10) @ [char_of (48 + n mod 10)]"
  by (subst show_nat.simps) simp

lemma show_nat_inj: "show_nat n = show_nat m \<Longrightarrow> n = m"
proof (induction n arbitrary: m rule: show_nat.induct)
  case (1 n)
  show ?case
  proof (cases "n < 10")
    case n: True
    show ?thesis
    proof (cases "m < 10")
      case True
      from "1.prems" have "char_of (48 + n) = (char_of (48 + m) :: char)"
        by (simp only: show_nat_small [OF n] show_nat_small [OF True] list.inject)
      with n True show ?thesis by (rule digit_char_inj)
    next
      case False
      from "1.prems" have "length (show_nat n) = length (show_nat m)" by (rule arg_cong)
      then have "show_nat (m div 10) = []"
        by (simp only: show_nat_small [OF n] show_nat_large [OF False]) simp
      with show_nat_nonempty show ?thesis by blast
    qed
  next
    case n: False
    show ?thesis
    proof (cases "m < 10")
      case True
      from "1.prems" have "length (show_nat n) = length (show_nat m)" by (rule arg_cong)
      then have "show_nat (n div 10) = []"
        by (simp only: show_nat_small [OF True] show_nat_large [OF n]) simp
      with show_nat_nonempty show ?thesis by blast
    next
      case False
      from "1.prems"
      have "show_nat (n div 10) @ [char_of (48 + n mod 10)]
          = show_nat (m div 10) @ [char_of (48 + m mod 10)]"
        by (simp only: show_nat_large [OF n] show_nat_large [OF False])
      then have a: "show_nat (n div 10) = show_nat (m div 10)"
        and b: "char_of (48 + n mod 10) = (char_of (48 + m mod 10) :: char)"
        by simp_all
      from "1.IH" [OF n a] have "n div 10 = m div 10" .
      moreover have "n mod 10 < 10" "m mod 10 < 10" by simp_all
      then have "n mod 10 = m mod 10" using b by (rule digit_char_inj)
      ultimately show ?thesis
        by (metis div_mult_mod_eq)
    qed
  qed
qed

lemma basename_ext_subset: "set (basename_ext p x) \<subseteq> set (basename p)"
  by (auto simp: basename_ext_def Let_def dest: in_set_takeD)

lemma extname_subset: "set (extname p) \<subseteq> insert (CHR ''.'') (set (basename p))"
  by (auto simp: extname_def Let_def dest: set_takeWhileD)

lemma show_nat_digits: "c \<in> set (show_nat n) \<Longrightarrow> c \<noteq> CHR ''/''"
proof (induction n rule: show_nat.induct)
  case (1 n)
  show ?case
  proof (cases "n < 10")
    case True
    with "1.prems" have "c = char_of (48 + n)"
      by (subst (asm) show_nat.simps) simp
    moreover have "of_char (char_of (48 + n) :: char) = 48 + n"
      using True by simp
    ultimately have "of_char c = 48 + n" by simp
    then show ?thesis using True by auto
  next
    case False
    with "1.prems" have "c \<in> set (show_nat (n div 10)) \<or> c = char_of (48 + n mod 10)"
      by (subst (asm) show_nat.simps) auto
    then show ?thesis
    proof
      assume "c \<in> set (show_nat (n div 10))"
      with "1.IH" [OF False] show ?thesis by blast
    next
      assume "c = char_of (48 + n mod 10)"
      moreover have "of_char (char_of (48 + n mod 10) :: char) = 48 + n mod 10"
        by simp
      ultimately have "of_char c = 48 + n mod 10" by simp
      then show ?thesis by auto
    qed
  qed
qed

lemma copy_name_normal:
  assumes "CHR ''/'' \<notin> set b" and "CHR ''/'' \<notin> set x" and "CHR ''/'' \<notin> set d"
  shows "normal_seg (b @ '' copy'' @ d @ x)"
proof -
  have "CHR '' '' \<in> set (b @ '' copy'' @ d @ x)" by simp
  then have "b @ '' copy'' @ d @ x \<noteq> []" and "b @ '' copy'' @ d @ x \<noteq> ''.''"
    and "b @ '' copy'' @ d @ x \<noteq> ''..''"
    by (metis empty_iff list.set(1), auto)
  moreover from assms have "CHR ''/'' \<notin> set (b @ '' copy'' @ d @ x)" by simp
  ultimately show ?thesis by (simp add: normal_seg_def)
qed

subsection \<open>The search for a free name\<close>

lemma io_succeeds_access: "io_succeeds (fs_access c q) w = (Inr (node_at c w q \<noteq> None), w)"
  by (cases "node_at c w q") (simp_all add: io_defs fs_access_def)

lemma findUniqueName_found:
  "node_at c w candidate \<noteq> None \<Longrightarrow>
   findUniqueName c dir b x candidate k w
     = findUniqueName c dir b x (join dir (b @ '' copy '' @ show_nat (k + 1) @ x)) (k + 1) w"
  by (subst findUniqueName.simps) (simp add: io_succeeds_access)

lemma findUniqueName_free:
  "node_at c w candidate = None \<Longrightarrow>
   findUniqueName c dir b x candidate k w = Some (Inr candidate, w)"
  by (subst findUniqueName.simps) (simp add: io_succeeds_access)

lemma findUniqueName_stops:
  assumes "\<forall>j. k \<le> j \<and> j < m \<longrightarrow>
             node_at c w (join dir (b @ '' copy '' @ show_nat j @ x)) \<noteq> None"
    and "node_at c w (join dir (b @ '' copy '' @ show_nat m @ x)) = None"
    and "k \<le> m"
  shows "findUniqueName c dir b x (join dir (b @ '' copy '' @ show_nat k @ x)) k w
       = Some (Inr (join dir (b @ '' copy '' @ show_nat m @ x)), w)"
  using assms
proof (induction "m - k" arbitrary: k)
  case 0
  then have "k = m" by simp
  with "0.prems"(2) show ?case
    by (simp only: findUniqueName_free)
next
  case (Suc d)
  then have lt: "k < m" by simp
  with Suc.prems(1) have ex: "node_at c w (join dir (b @ '' copy '' @ show_nat k @ x)) \<noteq> None"
    by simp
  have "findUniqueName c dir b x (join dir (b @ '' copy '' @ show_nat (k + 1) @ x)) (k + 1) w
       = Some (Inr (join dir (b @ '' copy '' @ show_nat m @ x)), w)"
  proof (rule Suc.hyps(1))
    from Suc.hyps(2) show "d = m - (k + 1)" by simp
    from Suc.prems(1) show "\<forall>j. k + 1 \<le> j \<and> j < m \<longrightarrow>
             node_at c w (join dir (b @ '' copy '' @ show_nat j @ x)) \<noteq> None"
      by simp
    from Suc.prems(2) show "node_at c w (join dir (b @ '' copy '' @ show_nat m @ x)) = None" .
    from lt show "k + 1 \<le> m" by simp
  qed
  with findUniqueName_found [OF ex, of dir b x k] show ?case
    by (simp only:)
qed

lemma free_copy_name_exists:
  assumes "finite F"
  shows "\<exists>k\<ge>2. b @ '' copy '' @ show_nat k @ x \<notin> F"
proof -
  let ?f = "\<lambda>k. b @ '' copy '' @ show_nat k @ x"
  have "inj ?f"
    by (rule injI) (simp add: show_nat_inj)
  with assms have "finite (?f -` F)"
    by (rule finite_vimageI)
  then obtain M where M: "\<forall>n\<in>?f -` F. n \<le> M"
    using finite_nat_set_iff_bounded_le by blast
  have "M + 2 \<notin> ?f -` F"
  proof
    assume "M + 2 \<in> ?f -` F"
    with M have "M + 2 \<le> M" by blast
    then show False by simp
  qed
  then have "2 \<le> M + 2 \<and> ?f (M + 2) \<notin> F" by simp
  then show ?thesis by blast
qed

lemma numbered_copy_name_normal:
  assumes "CHR ''/'' \<notin> set b" and "CHR ''/'' \<notin> set x"
  shows "normal_seg (b @ '' copy '' @ show_nat k @ x)"
proof -
  have "CHR ''/'' \<notin> set ('' '' @ show_nat k)"
    using show_nat_digits [of "CHR ''/''" k] by auto
  with assms have "normal_seg (b @ '' copy'' @ ('' '' @ show_nat k) @ x)"
    by (intro copy_name_normal)
  then show ?thesis by simp
qed

lemma first_copy_name_normal:
  assumes "CHR ''/'' \<notin> set b" and "CHR ''/'' \<notin> set x"
  shows "normal_seg (b @ '' copy'' @ x)"
  using copy_name_normal [OF assms, of "[]"] by simp

lemma findUniqueName_finds:
  assumes "finite F"
    and ex: "\<And>n. normal_seg n \<Longrightarrow> (node_at c w (join dir n) \<noteq> None) = (n \<in> F)"
    and b: "CHR ''/'' \<notin> set b" and x: "CHR ''/'' \<notin> set x"
  shows "\<exists>n. normal_seg n \<and> n \<notin> F
     \<and> findUniqueName c dir b x (join dir (b @ '' copy'' @ x)) 1 w = Some (Inr (join dir n), w)
     \<and> (n = b @ '' copy'' @ x \<or> (\<exists>k\<ge>2. n = b @ '' copy '' @ show_nat k @ x))"
proof (cases "b @ '' copy'' @ x \<in> F")
  case False
  have n: "normal_seg (b @ '' copy'' @ x)"
    using b x by (rule first_copy_name_normal)
  with False ex have "node_at c w (join dir (b @ '' copy'' @ x)) = None" by blast
  then have "findUniqueName c dir b x (join dir (b @ '' copy'' @ x)) 1 w
      = Some (Inr (join dir (b @ '' copy'' @ x)), w)"
    by (rule findUniqueName_free)
  with False n show ?thesis by blast
next
  case True
  have n1: "normal_seg (b @ '' copy'' @ x)"
    using b x by (rule first_copy_name_normal)
  with True ex have first: "node_at c w (join dir (b @ '' copy'' @ x)) \<noteq> None" by blast
  have nk: "normal_seg (b @ '' copy '' @ show_nat k @ x)" for k
    using b x by (rule numbered_copy_name_normal)
  let ?free = "\<lambda>k. 2 \<le> k \<and> b @ '' copy '' @ show_nat k @ x \<notin> F"
  from free_copy_name_exists [OF assms(1), of b x] have "\<exists>k. ?free k" by blast
  then have m: "?free (LEAST k. ?free k)" by (rule LeastI_ex)
  define m where "m = (LEAST k. ?free k)"
  from m have m2: "2 \<le> m" and mF: "b @ '' copy '' @ show_nat m @ x \<notin> F"
    unfolding m_def by (rule conjunct1, rule conjunct2)
  from mF nk ex have mf: "node_at c w (join dir (b @ '' copy '' @ show_nat m @ x)) = None"
    by blast
  have below: "\<forall>j. 2 \<le> j \<and> j < m \<longrightarrow>
             node_at c w (join dir (b @ '' copy '' @ show_nat j @ x)) \<noteq> None"
  proof (intro allI impI)
    fix j assume j: "2 \<le> j \<and> j < m"
    then have "j < (LEAST k. ?free k)" unfolding m_def by (rule conjunct2)
    then have "\<not> ?free j" by (rule not_less_Least)
    with j have "b @ '' copy '' @ show_nat j @ x \<in> F" by auto
    with nk ex show "node_at c w (join dir (b @ '' copy '' @ show_nat j @ x)) \<noteq> None" by blast
  qed
  have "findUniqueName c dir b x (join dir (b @ '' copy '' @ show_nat 2 @ x)) 2 w
       = Some (Inr (join dir (b @ '' copy '' @ show_nat m @ x)), w)"
    using below mf m2 by (rule findUniqueName_stops)
  moreover have "(1::nat) + 1 = 2" by simp
  ultimately have "findUniqueName c dir b x (join dir (b @ '' copy'' @ x)) 1 w
      = Some (Inr (join dir (b @ '' copy '' @ show_nat m @ x)), w)"
    using findUniqueName_found [OF first, of dir b x 1] by (simp only:)
  with mF m2 nk show ?thesis by blast
qed

subsection \<open>Duplicating a file\<close>

lemma target_of_resolved:
  assumes "isAbsolute c"
  shows "target_of c (resolve c p) = Some (resolved_segs c p)"
proof -
  have r: "resolve c p = CHR ''/'' # join_sep (resolved_segs c p)"
    by (rule resolve_absolute_cwd [OF assms])
  have "path_segments (resolve c (resolve c p)) = resolved_segs c (resolve c p)"
    by (rule path_segments_resolve [OF assms])
  also have "\<dots> = resolved_segs c p"
    unfolding r by (rule resolved_segs_rooted) (auto dest: resolved_segs_normal)
  finally show ?thesis
    by (simp add: target_of_def r)
qed

lemma target_of_sibling:
  assumes c: "isAbsolute c" and ne: "resolved_segs c p \<noteq> []" and n: "normal_seg n"
  shows "target_of c (join (dirname (resolve c p)) n) = Some (butlast (resolved_segs c p) @ [n])"
proof -
  let ?ns = "resolved_segs c p"
  have nn: "\<forall>s\<in>set ?ns. normal_seg s" by (auto dest: resolved_segs_normal)
  then have nb: "\<forall>s\<in>set (butlast ?ns). normal_seg s" by (auto dest: in_set_butlastD)
  have "dirname (resolve c p) = CHR ''/'' # join_sep (butlast ?ns)"
    unfolding resolve_absolute_cwd [OF c] using nn ne by (rule dirname_rooted)
  then have "resolved_segs c (join (dirname (resolve c p)) n)
      = resolved_segs c (CHR ''/'' # join_sep (butlast ?ns)) @ [n]"
    by (simp only: resolved_segs_join [OF n])
  also have "\<dots> = butlast ?ns @ [n]"
    by (simp only: resolved_segs_rooted [OF nb])
  finally have "path_segments (resolve c (join (dirname (resolve c p)) n)) = butlast ?ns @ [n]"
    by (simp only: path_segments_resolve [OF c])
  then show ?thesis
    by (simp add: target_of_def join_nonempty)
qed

lemmas iop_defs = iop_lift_def iop_bind_def iop_catch_def

lemma duplicateFile_not_a_file:
  assumes "startsWith (resolve (env_cwd e) p) (resolve (env_cwd e) (rootDirectory (env_settings e)))"
    and "\<forall>dat. node_at (env_cwd e) w (resolve (env_cwd e) p) \<noteq> Some (File dat)"
  shows "\<exists>r. duplicateFile e p w = Some (Inr r, w) \<and> \<not> success r \<and> error r \<noteq> None"
proof (cases "node_at (env_cwd e) w (resolve (env_cwd e) p)")
  case None
  with assms(1) show ?thesis
    by (simp add: duplicateFile_def validatePathSecurity_def readSettings_def fs_stat_def
        iop_defs io_defs)
next
  case (Some n)
  with assms(2) obtain es where "n = Dir es" by (cases n) auto
  with Some assms(1) show ?thesis
    by (simp add: duplicateFile_def validatePathSecurity_def readSettings_def fs_stat_def
        iop_defs io_defs stats_of_def)
qed

lemma duplicateFile_of_file:
  assumes c: "isAbsolute (env_cwd e)" and root: "is_dir (tree w)"
    and v: "startsWith (resolve (env_cwd e) p) (resolve (env_cwd e) (rootDirectory (env_settings e)))"
    and f: "node_at (env_cwd e) w (resolve (env_cwd e) p) = Some (File dat)"
  shows "\<exists>fresh w'.
       duplicateFile e p w = Some (Inr \<lparr>success = True, error = None, newPath = Some fresh\<rparr>, w')
     \<and> (fresh = join (dirname (resolve (env_cwd e) p))
                  (basename_ext (resolve (env_cwd e) p) (extname (resolve (env_cwd e) p))
                     @ '' copy'' @ extname (resolve (env_cwd e) p))
        \<or> (\<exists>k\<ge>2. fresh = join (dirname (resolve (env_cwd e) p))
                  (basename_ext (resolve (env_cwd e) p) (extname (resolve (env_cwd e) p))
                     @ '' copy '' @ show_nat k @ extname (resolve (env_cwd e) p))))
     \<and> node_at (env_cwd e) w fresh = None
     \<and> node_at (env_cwd e) w' fresh = Some (File dat)
     \<and> node_at (env_cwd e) w' (resolve (env_cwd e) p) = Some (File dat)
     \<and> (\<forall>q. target_of (env_cwd e) q \<noteq> target_of (env_cwd e) fresh \<longrightarrow>
            file_at (env_cwd e) w' q = file_at (env_cwd e) w q)"
proof -
  let ?c = "env_cwd e"
  let ?rp = "resolve ?c p"
  let ?ns = "resolved_segs ?c p"
  let ?x = "extname ?rp" and ?dir = "dirname ?rp"
  let ?b = "basename_ext ?rp ?x"
  have t: "target_of ?c ?rp = Some ?ns" by (rule target_of_resolved [OF c])
  with f have lf: "lookup_node (tree w) ?ns = Some (File dat)"
    by (simp add: node_at_def)
  have ne: "?ns \<noteq> []"
  proof
    assume "?ns = []"
    with lf have "tree w = File dat" by simp
    with root show False by (simp add: is_dir_def)
  qed
  then have split: "?ns = butlast ?ns @ [last ?ns]" by simp
  with lf have "lookup_node (tree w) (butlast ?ns @ [last ?ns]) = Some (File dat)" by simp
  then obtain es where es: "lookup_node (tree w) (butlast ?ns) = Some (Dir es)"
    using lookup_node_parent by blast
  have sib: "node_at ?c w (join ?dir n) = map_of es n" if "normal_seg n" for n
    using target_of_sibling [OF c ne that] lookup_node_snoc_Dir [OF es, of n]
    by (simp add: node_at_def)
  have orig: "map_of es (last ?ns) = Some (File dat)"
    using lookup_node_snoc_Dir [OF es, of "last ?ns"] lf split by simp
  have bs: "CHR ''/'' \<notin> set ?b"
    using basename_ext_subset [of ?rp ?x] basename_slash_free [of ?rp] by blast
  have xs: "CHR ''/'' \<notin> set ?x"
    using extname_subset [of ?rp] basename_slash_free [of ?rp] by auto
  have fin: "finite (fst ` set es)" by simp
  have ex: "(node_at ?c w (join ?dir n) \<noteq> None) = (n \<in> fst ` set es)" if "normal_seg n" for n
    using sib [OF that] by (simp add: map_of_eq_None_iff)
  from findUniqueName_finds [OF fin ex bs xs]
  obtain n where n: "normal_seg n" and nF: "n \<notin> fst ` set es"
    and run: "findUniqueName ?c ?dir ?b ?x (join ?dir (?b @ '' copy'' @ ?x)) 1 w
                = Some (Inr (join ?dir n), w)"
    and form: "n = ?b @ '' copy'' @ ?x \<or> (\<exists>k\<ge>2. n = ?b @ '' copy '' @ show_nat k @ ?x)"
    by blast
  let ?fresh = "join ?dir n"
  from nF have free: "map_of es n = None" by (simp add: map_of_eq_None_iff)
  have tf: "target_of ?c ?fresh = Some (butlast ?ns @ [n])"
    by (rule target_of_sibling [OF c ne n])
  from write_node_new [OF es free] obtain t' where
    wr: "write_node (tree w) (butlast ?ns @ [n]) dat = Some t'" by blast
  let ?w' = "w\<lparr>tree := t'\<rparr>"
  have wf: "fs_writeFile ?c ?fresh dat w = (Inr (), ?w')"
    using tf wr by (simp add: fs_writeFile_def fs_change_def)
  have rd: "fs_readFile ?c ?rp w = (Inr dat, w)"
    using f by (simp add: fs_readFile_def)
  have st: "fs_stat ?c ?rp w = (Inr (stats_of (File dat)), w)"
    using f by (simp add: fs_stat_def)
  have dup: "duplicateFile e p w
      = Some (Inr \<lparr>success = True, error = None, newPath = Some ?fresh\<rparr>, ?w')"
    using v st run rd wf
    by (simp add: duplicateFile_def validatePathSecurity_def readSettings_def
        iop_defs io_defs stats_of_def Let_def)
  have before: "node_at ?c w ?fresh = None"
    using sib [OF n] free by simp
  have new: "lookup_node t' (butlast ?ns @ [n]) = Some (File dat)"
    using wr by (rule lookup_write_node)
  then have after: "node_at ?c ?w' ?fresh = Some (File dat)"
    using tf by (simp add: node_at_def)
  have absent: "lookup_node (tree w) (butlast ?ns @ [n]) = None"
    using lookup_node_snoc_Dir [OF es, of n] free by simp
  have frame: "file_in t' q = file_in (tree w) q" if "q \<noteq> butlast ?ns @ [n]" for q
    using wr absent that by (rule write_node_frame)
  from orig free have "last ?ns \<noteq> n" by auto
  with split have "?ns \<noteq> butlast ?ns @ [n]"
    by (metis append1_eq_conv)
  then have "file_in t' ?ns = file_in (tree w) ?ns" by (rule frame)
  with lf have "file_in t' ?ns = Some dat" by (simp add: file_in_def)
  then have "lookup_node t' ?ns = Some (File dat)"
    by (auto simp: file_in_def split: option.splits node.splits)
  with t have kept: "node_at ?c ?w' ?rp = Some (File dat)"
    by (simp add: node_at_def)
  have others: "\<forall>q. target_of ?c q \<noteq> target_of ?c ?fresh \<longrightarrow> file_at ?c ?w' q = file_at ?c w q"
  proof (intro allI impI)
    fix q assume q: "target_of ?c q \<noteq> target_of ?c ?fresh"
    show "file_at ?c ?w' q = file_at ?c w q"
    proof (cases "target_of ?c q")
      case None
      then show ?thesis by (simp add: file_at_def)
    next
      case (Some ss)
      with q tf have "ss \<noteq> butlast ?ns @ [n]" by simp
      then have "file_in t' ss = file_in (tree w) ss" by (rule frame)
      with Some show ?thesis by (simp add: file_at_def)
    qed
  qed
  from dup form before after kept others show ?thesis
    by blast
qed



section \<open>What the file store returns\<close>

lemma duplicateFile_denied:
  assumes "\<not> startsWith (resolve (env_cwd e) p) (resolve (env_cwd e) (rootDirectory (env_settings e)))"
  shows "\<exists>r. duplicateFile e p w = Some (Inr r, w)"
  using assms
  by (simp add: duplicateFile_def validatePathSecurity_def readSettings_def iop_defs io_defs)

lemma duplicateFile_returns:
  assumes "isAbsolute (env_cwd e)" and "is_dir (tree w)"
  shows "\<exists>r w'. duplicateFile e p w = Some (Inr r, w')"
proof (cases "startsWith (resolve (env_cwd e) p) (resolve (env_cwd e) (rootDirectory (env_settings e)))")
  case False
  then show ?thesis using duplicateFile_denied by blast
next
  case True
  show ?thesis
  proof (cases "\<exists>dat. node_at (env_cwd e) w (resolve (env_cwd e) p) = Some (File dat)")
    case False
    with True show ?thesis using duplicateFile_not_a_file [of e p w] by blast
  next
    case f: True
    then obtain dat where "node_at (env_cwd e) w (resolve (env_cwd e) p) = Some (File dat)" ..
    from duplicateFile_of_file [OF assms True this] show ?thesis by blast
  qed
qed

lemma readFile_raises_iff:
  "(\<exists>err. fst (readFile e p w) = Inl err) \<longleftrightarrow>
     \<not> startsWith (resolve (env_cwd e) p) (resolve (env_cwd e) (rootDirectory (env_settings e)))
     \<or> (\<forall>dat. node_at (env_cwd e) w (resolve (env_cwd e) p) \<noteq> Some (File dat))"
proof (cases "node_at (env_cwd e) w (resolve (env_cwd e) p)")
  case None
  then show ?thesis by (simp add: readFile_eq fs_readFile_def)
next
  case (Some n)
  then show ?thesis by (cases n) (simp_all add: readFile_eq fs_readFile_def)
qed

text \<open>
  C6, as the code has it. \<open>writeFile\<close>, \<open>createFile\<close>, \<open>renameItem\<close>, \<open>moveItem\<close> and
  \<open>deleteItem\<close> return a structured result for every input and never throw; \<open>duplicateFile\<close>
  never throws, and returns a structured result whenever the working directory is
  absolute and the root of the disk is a directory. \<open>readFile\<close> has no structured result:
  it returns the content, and it throws exactly when the path fails the sandbox check or
  does not name a file.
\<close>

theorem file_store_results:
  "(\<exists>r w'. writeFile e p dat w = (Inr r, w'))
   \<and> (\<exists>r w'. createFile e d n dat w = (Inr r, w'))
   \<and> (\<exists>r w'. renameItem e p n w = (Inr r, w'))
   \<and> (\<exists>r w'. moveItem e p t w = (Inr r, w'))
   \<and> (\<exists>r w'. deleteItem e p u w = (Inr r, w'))
   \<and> (\<forall>x. duplicateFile e p w = Some x \<longrightarrow> (\<exists>r. fst x = Inr r))
   \<and> (isAbsolute (env_cwd e) \<and> is_dir (tree w) \<longrightarrow> (\<exists>r w'. duplicateFile e p w = Some (Inr r, w')))
   \<and> ((\<exists>err. fst (readFile e p w) = Inl err) \<longleftrightarrow>
        \<not> startsWith (resolve (env_cwd e) p) (resolve (env_cwd e) (rootDirectory (env_settings e)))
        \<or> (\<forall>dat. node_at (env_cwd e) w (resolve (env_cwd e) p) \<noteq> Some (File dat)))"
  using writeFile_returns [of e p dat w] createFile_returns [of e d n dat w]
    renameItem_returns [of e p n w] moveItem_returns [of e p t w] deleteItem_returns [of e p u w]
    duplicateFile_never_raises [of e p w] duplicateFile_returns [of e w p]
    readFile_raises_iff [of e p w]
  by (intro conjI allI impI) blast+

text \<open>The file \<open>/w/a.md\<close> of the scenarios: duplicated, deleted, and read without an error.\<close>

theorem file_store_results_witness:
  "isAbsolute (env_cwd scenario_env) \<and> is_dir (tree scenario_world)
   \<and> (\<exists>r w'. duplicateFile scenario_env ''/w/a.md'' scenario_world = Some (Inr r, w'))
   \<and> (\<exists>r w'. deleteItem scenario_env ''/w/a.md'' True scenario_world = (Inr r, w'))
   \<and> startsWith (resolve (env_cwd scenario_env) ''/w/a.md'')
        (resolve (env_cwd scenario_env) (rootDirectory (env_settings scenario_env)))
   \<and> node_at (env_cwd scenario_env) scenario_world (resolve (env_cwd scenario_env) ''/w/a.md'')
        = Some (File ''old'')
   \<and> \<not> (\<exists>err. fst (readFile scenario_env ''/w/a.md'' scenario_world) = Inl err)"
proof -
  have a: "isAbsolute (env_cwd scenario_env)" and d: "is_dir (tree scenario_world)"
    by code_simp+
  have v: "startsWith (resolve (env_cwd scenario_env) ''/w/a.md'')
        (resolve (env_cwd scenario_env) (rootDirectory (env_settings scenario_env)))"
    by code_simp
  have f: "node_at (env_cwd scenario_env) scenario_world (resolve (env_cwd scenario_env) ''/w/a.md'')
        = Some (File ''old'')"
    by code_simp
  from file_store_results [of scenario_env "''/w/a.md''" "[]" scenario_world "[]" "[]" "[]" True]
    a d v f show ?thesis
    by auto
qed


text \<open>
  The claim as stated fails for \<open>readFile\<close>: outside the root and on a missing path it
  throws.
\<close>

theorem readFile_raises:
  "readFile scenario_env ''/etc/passwd'' scenario_world
     = (Inl (Error ''Access denied: File is outside the allowed directory''), scenario_world)
   \<and> readFile scenario_env ''/w/missing.md'' scenario_world
     = (Inl (Error ''ENOENT: no such file or directory''), scenario_world)"
  by code_simp

section \<open>What the sandbox check accepts\<close>

lemma join_sep_append:
  "xs \<noteq> [] \<Longrightarrow> ys \<noteq> [] \<Longrightarrow> join_sep (xs @ ys) = join_sep xs @ CHR ''/'' # join_sep ys"
proof (induction xs rule: join_sep.induct)
  case 1
  then show ?case by simp
next
  case (2 s)
  then show ?case by (cases ys) simp_all
next
  case (3 s t ss)
  then show ?case by simp
qed

text \<open>
  The check never rejects a path inside the root: what the specification accepts, the
  code accepts. The converse is what C1 refutes.
\<close>

lemma validatePath_accepts_inside:
  assumes "isAbsolute c" and "spec_within_root c p r"
  shows "validatePath c p r"
proof -
  let ?rs = "resolved_segs c r" and ?ps = "resolved_segs c p"
  from assms have "prefix ?rs ?ps"
    by (simp add: spec_within_root_def path_segments_resolve)
  then obtain more where m: "?ps = ?rs @ more" by (auto simp: prefix_def)
  have "prefix (CHR ''/'' # join_sep ?rs) (CHR ''/'' # join_sep (?rs @ more))"
  proof (cases "?rs = [] \<or> more = []")
    case True
    then show ?thesis by auto
  next
    case False
    then have "join_sep (?rs @ more) = join_sep ?rs @ CHR ''/'' # join_sep more"
      by (simp add: join_sep_append)
    then show ?thesis by simp
  qed
  with m show ?thesis
    by (simp add: validatePath_def startsWith_def resolve_absolute_cwd [OF assms(1)])
qed

end
